theory Spec2Isabelle
  imports Complex_Main "HOL-Library.Sublist"
begin

section \<open>JavaScript values used by the exporter\<close>

text \<open>
  A JavaScript Number is modelled by its exact value: every finite double is a rational,
  and the three non-finite values are separate constructors. Negative zero is
  \<open>Finite 0\<close> (\<open>toFixed\<close> prints both zeros alike). Strings are byte strings
  (UTF-8); every pattern the exporter searches for is ASCII.
\<close>

datatype number = Finite rat | NaN | PosInfinity | NegInfinity

datatype vector3 = Vector3 (vx: number) (vy: number) (vz: number)

datatype quaternion = Quaternion (qx: number) (qy: number) (qz: number) (qw: number)

text \<open>
  What the exporter calls but does not define, and what is floating-point computation
  there, is taken as a parameter:
  \<^item> \<open>shortestDigits x\<close>, for a finite double \<open>x > 0\<close>: the integers \<open>(s, n)\<close> of
    \<open>Number::toString\<close>, where \<open>s\<close> holds the fewest decimal digits \<open>k\<close> such that
    \<open>s * 10^(n - k)\<close> still rounds to \<open>x\<close>;
  \<^item> \<open>setFromQuaternion q order\<close>: the angles \<open>x\<close>, \<open>y\<close>, \<open>z\<close> of
    \<open>new THREE.Euler().setFromQuaternion(q, order)\<close>;
  \<^item> \<open>radToDeg\<close>: \<open>THREE.MathUtils.radToDeg\<close>.
\<close>

record runtime =
  shortestDigits :: "rat \<Rightarrow> nat \<times> nat"
  setFromQuaternion :: "quaternion \<Rightarrow> string \<Rightarrow> vector3"
  radToDeg :: "number \<Rightarrow> number"

subsection \<open>Decimal digits\<close>

definition digitChar :: "nat \<Rightarrow> char" where
  "digitChar d = ''0123456789'' ! d"

fun showNat :: "nat \<Rightarrow> string" where
  "showNat n = (if n < 10 then [digitChar n] else showNat (n div 10) @ [digitChar (n mod 10)])"

declare showNat.simps [simp del]

subsection \<open>\<open>Number.prototype.toFixed\<close>\<close>

text \<open>
  \<open>Number::toString\<close> of a finite \<open>x\<close> of at least \<open>10^21\<close>: there \<open>n > 21\<close>, and the
  digits are printed in exponent notation, \<open>d[.ddd]e+(n - 1)\<close>.
\<close>

definition numberToString :: "runtime \<Rightarrow> rat \<Rightarrow> string" where
  "numberToString E x =
     (let (s, n) = shortestDigits E x;
          ds = showNat s
      in (if length ds = 1 then ds else take 1 ds @ ''.'' @ drop 1 ds)
         @ ''e+'' @ showNat (n - 1))"

text \<open>
  ECMAScript, \<open>Number.prototype.toFixed(f)\<close>: a non-finite value prints as
  \<open>Number::toString\<close> does; otherwise the sign is split off, a magnitude of at least
  \<open>10^21\<close> is printed by \<open>Number::toString\<close>, and a smaller one as the integer \<open>n\<close>
  nearest to \<open>x * 10^f\<close> (the larger one on a tie), padded with zeros to \<open>f + 1\<close>
  digits, with a point before the last \<open>f\<close> digits.
\<close>

definition toFixed :: "runtime \<Rightarrow> number \<Rightarrow> nat \<Rightarrow> string" where
  "toFixed E v f =
     (case v of
        NaN \<Rightarrow> ''NaN''
      | PosInfinity \<Rightarrow> ''Infinity''
      | NegInfinity \<Rightarrow> ''-Infinity''
      | Finite q \<Rightarrow>
          (let s = (if q < 0 then ''-'' else '''');
               x = (if q < 0 then - q else q)
           in if 10 ^ 21 \<le> x then s @ numberToString E x
              else
                (let n = nat \<lfloor>x * 10 ^ f + 1 / 2\<rfloor>;
                     m = (if n = 0 then ''0'' else showNat n);
                     m = (if f \<noteq> 0
                          then (let m = (if length m \<le> f
                                         then replicate (f + 1 - length m) (CHR ''0'') @ m
                                         else m);
                                    k = length m
                                in take (k - f) m @ ''.'' @ drop (k - f) m)
                          else m)
                 in s @ m)))"

subsection \<open>String methods\<close>

text \<open>\<open>s.repeat(n)\<close>.\<close>

definition repeat :: "string \<Rightarrow> nat \<Rightarrow> string" where
  "repeat s n = concat (replicate n s)"

text \<open>
  \<open>s.replace(pat, rep)\<close> with a string pattern: only the first occurrence of \<open>pat\<close> is
  replaced (the empty pattern occurs at position 0); \<open>rep\<close> is taken literally, which
  is what JavaScript does when it holds no \<open>$\<close>.
\<close>

fun replace :: "string \<Rightarrow> string \<Rightarrow> string \<Rightarrow> string" where
  "replace [] pat rep = (if pat = [] then rep else [])"
| "replace (c # s) pat rep =
     (if prefix pat (c # s) then rep @ drop (length pat) (c # s)
      else c # replace s pat rep)"

text \<open>
  \<open>s.trim()\<close> removes white space and line terminators at both ends; of these only
  the ASCII ones are single bytes.
\<close>

definition isWhiteSpace :: "char \<Rightarrow> bool" where
  "isWhiteSpace c = (c \<in> set [CHR 0x09, CHR 0x0A, CHR 0x0B, CHR 0x0C, CHR 0x0D, CHR 0x20])"

definition trim :: "string \<Rightarrow> string" where
  "trim s = rev (dropWhile isWhiteSpace (rev (dropWhile isWhiteSpace s)))"

text \<open>\<open>s.split(c)\<close> with a one-character separator; used to read the document back.\<close>

fun splitOn :: "char \<Rightarrow> string \<Rightarrow> string list" where
  "splitOn c [] = [[]]"
| "splitOn c (x # xs) =
     (if x = c then [] # splitOn c xs
      else (case splitOn c xs of [] \<Rightarrow> [[x]] | w # ws \<Rightarrow> (x # w) # ws))"

section \<open>The scene graph\<close>

text \<open>
  Scene-graph nodes are objects with identity that point at each other (\<open>parent\<close>,
  \<open>children\<close>), so they live in a store and are named by references. Every
  reference denotes an object, as in JavaScript; nothing keeps the links from forming
  a cycle. A node that is no bone has no \<open>isBone\<close> property, which reads as false.
  \<open>name\<close> is \<open>None\<close> when the property is \<open>undefined\<close> or \<open>null\<close>; \<open>ident\<close> is the
  property \<open>id\<close>, the library's counter of created objects.
\<close>

type_synonym ref = nat

record object3D =
  isBone :: bool
  name :: "string option"
  ident :: nat
  position :: vector3
  quaternion :: quaternion
  parent :: "ref option"
  children :: "ref list"

type_synonym heap = "ref \<Rightarrow> object3D"

section \<open>The exporter\<close>

text \<open>
  \<open>buildBVHHierarchy(bone, level)\<close>. The recursion follows the \<open>children\<close> links of the
  store and need not end, so it is bounded by fuel: \<open>None\<close> means that the fuel ran
  out.
\<close>

fun buildBVHHierarchy :: "runtime \<Rightarrow> heap \<Rightarrow> nat \<Rightarrow> ref \<Rightarrow> nat \<Rightarrow> string option" where
  "buildBVHHierarchy E h 0 bone level = None"
| "buildBVHHierarchy E h (Suc fuel) bone level =
     (let indent = repeat ''  '' level;
          str = indent @ ''JOINT ''
                @ (case name (h bone) of
                     None \<Rightarrow> ''Bone_'' @ showNat (ident (h bone))
                   | Some n \<Rightarrow> if n = [] then ''Bone_'' @ showNat (ident (h bone)) else n)
                @ ''\<newline>'';
          str = str @ indent @ ''{\<newline>'';
          str = str @ indent @ ''  OFFSET '' @ toFixed E (vx (position (h bone))) 6
                @ '' '' @ toFixed E (vy (position (h bone))) 6
                @ '' '' @ toFixed E (vz (position (h bone))) 6 @ ''\<newline>'';
          str = str @ indent
                @ ''  CHANNELS 6 Xposition Yposition Zposition Xrotation Yrotation Zrotation\<newline>'';
          children = filter (\<lambda>child. isBone (h child)) (children (h bone))
      in case (if length children > 0
               then foldl (\<lambda>acc child.
                      case acc of
                        None \<Rightarrow> None
                      | Some str \<Rightarrow>
                          (case buildBVHHierarchy E h fuel child (level + 1) of
                             None \<Rightarrow> None
                           | Some s \<Rightarrow> Some (str @ s)))
                    (Some str) children
               else Some (str @ indent @ ''  End Site\<newline>''
                          @ indent @ ''  {\<newline>''
                          @ indent @ ''    OFFSET 0.0 0.0 0.0\<newline>''
                          @ indent @ ''  }\<newline>''))
         of None \<Rightarrow> None
          | Some str \<Rightarrow>
              Some (replace (str @ indent @ ''}\<newline>'')
                      ''HIERARCHY\<newline>JOINT'' ''HIERARCHY\<newline>ROOT''))"

text \<open>\<open>buildBVHMotion(bones)\<close>.\<close>

definition buildBVHMotion :: "runtime \<Rightarrow> heap \<Rightarrow> ref list \<Rightarrow> string" where
  "buildBVHMotion E h bones =
     trim (foldl (\<lambda>motion bone.
             let pos = position (h bone);
                 rot = setFromQuaternion E (quaternion (h bone)) ''XYZ'';
                 posValues = toFixed E (vx pos) 6 @ '' '' @ toFixed E (vy pos) 6
                             @ '' '' @ toFixed E (vz pos) 6;
                 rotValues = toFixed E (radToDeg E (vx rot)) 6
                             @ '' '' @ toFixed E (radToDeg E (vy rot)) 6
                             @ '' '' @ toFixed E (radToDeg E (vz rot)) 6
             in motion @ posValues @ '' '' @ rotValues @ '' '')
           [] bones)
     @ ''\<newline>''"

text \<open>
  The root choice of \<open>exportToBVH\<close>:
  \<open>bones.find(bone => !bone.parent || !bone.parent.isBone) || bones[0]\<close>. Object
  references are truthy, so the right operand is taken exactly when \<open>find\<close> found
  nothing; \<open>bones[0]\<close> of the empty array is \<open>undefined\<close>, here \<open>None\<close>.
\<close>

definition rootBone :: "heap \<Rightarrow> ref list \<Rightarrow> ref option" where
  "rootBone h bones =
     (case find (\<lambda>bone. case parent (h bone) of
                          None \<Rightarrow> True
                        | Some p \<Rightarrow> \<not> isBone (h p)) bones of
        Some bone \<Rightarrow> Some bone
      | None \<Rightarrow> (case bones of [] \<Rightarrow> None | b0 # _ \<Rightarrow> Some b0))"

text \<open>
  The text that \<open>exportToBVH\<close> has assembled in its variable \<open>bvhString\<close> when it
  creates the blob. \<open>None\<close>: no text was assembled (the hierarchy ran out of fuel, or
  there was no root to serialize).
\<close>

definition bvhString :: "runtime \<Rightarrow> heap \<Rightarrow> nat \<Rightarrow> ref list \<Rightarrow> string option" where
  "bvhString E h fuel bones =
     (let str = ''HIERARCHY\<newline>'' in
      case rootBone h bones of
        None \<Rightarrow> None
      | Some bone \<Rightarrow>
          (case buildBVHHierarchy E h fuel bone 0 of
             None \<Rightarrow> None
           | Some hierarchy \<Rightarrow>
               (let str = str @ hierarchy;
                    str = str @ ''MOTION\<newline>'';
                    str = str @ ''Frames: 1\<newline>'';
                    str = str @ ''Frame Time: 0.033333\<newline>'';
                    str = str @ buildBVHMotion E h bones
                in Some str)))"

subsection \<open>The download\<close>

text \<open>
  The part of the page that the export touches: the live object URLs, the links
  appended to the document body, and the files offered to the user so far.
\<close>

record blob =
  blobParts :: "string list"
  blobType :: string

record anchor =
  href :: nat
  download :: string

record page =
  nextURL :: nat
  objectURLs :: "nat \<rightharpoonup> blob"
  bodyChildren :: "anchor list"
  downloads :: "(string \<times> blob) list"

definition createObjectURL :: "blob \<Rightarrow> page \<Rightarrow> nat \<times> page" where
  "createObjectURL b st =
     (nextURL st,
      st\<lparr>nextURL := Suc (nextURL st), objectURLs := (objectURLs st)(nextURL st \<mapsto> b)\<rparr>)"

definition appendChild :: "anchor \<Rightarrow> page \<Rightarrow> page" where
  "appendChild link st = st\<lparr>bodyChildren := bodyChildren st @ [link]\<rparr>"

definition click :: "anchor \<Rightarrow> page \<Rightarrow> page" where
  "click link st =
     (case objectURLs st (href link) of
        None \<Rightarrow> st
      | Some b \<Rightarrow> st\<lparr>downloads := downloads st @ [(download link, b)]\<rparr>)"

definition removeChild :: "anchor \<Rightarrow> page \<Rightarrow> page" where
  "removeChild link st = st\<lparr>bodyChildren := remove1 link (bodyChildren st)\<rparr>"

definition revokeObjectURL :: "nat \<Rightarrow> page \<Rightarrow> page" where
  "revokeObjectURL url st = st\<lparr>objectURLs := (objectURLs st)(url := None)\<rparr>"

text \<open>
  \<open>exportToBVH()\<close>, on the bones of the markers (\<open>boneDots.map(dot => dot.userData.bone)\<close>)
  and the page. \<open>None\<close>: the call does not return.
\<close>

definition exportToBVH :: "runtime \<Rightarrow> heap \<Rightarrow> nat \<Rightarrow> ref list \<Rightarrow> page \<Rightarrow> page option" where
  "exportToBVH E h fuel bones st =
     (if length bones = 0 then Some st
      else
        (case bvhString E h fuel bones of
           None \<Rightarrow> None
         | Some str \<Rightarrow>
             (let blob = \<lparr>blobParts = [str], blobType = ''text/plain''\<rparr>;
                  (url, st) = createObjectURL blob st;
                  link = \<lparr>href = url, download = ''animation.bvh''\<rparr>;
                  st = appendChild link st;
                  st = click link st;
                  st = removeChild link st;
                  st = revokeObjectURL url st
              in Some st)))"

text \<open>
  The earlier revision of the file keeps the rewrite of the root keyword in a function of
  its own, \<open>fixRootBone(bvhString)\<close>, which nothing calls.
\<close>

definition fixRootBone :: "string \<Rightarrow> string" where
  "fixRootBone str = replace str ''HIERARCHY\<newline>JOINT'' ''HIERARCHY\<newline>ROOT''"

section \<open>Notions used to state the properties\<close>

subsection \<open>Parts of the serializer\<close>

text \<open>
  Names for expressions of \<open>buildBVHHierarchy\<close> and \<open>buildBVHMotion\<close>: the children that
  are bones, the label of the joint header, the four lines that open every joint block,
  the four lines of an End Site sub-block, and the six values of a bone in the motion
  line. The lines are given without their line breaks.
\<close>

definition boneChildren :: "heap \<Rightarrow> ref \<Rightarrow> ref list" where
  "boneChildren h bone = filter (\<lambda>child. isBone (h child)) (children (h bone))"

definition jointLabel :: "heap \<Rightarrow> ref \<Rightarrow> string" where
  "jointLabel h bone =
     (case name (h bone) of
        None \<Rightarrow> ''Bone_'' @ showNat (ident (h bone))
      | Some n \<Rightarrow> if n = [] then ''Bone_'' @ showNat (ident (h bone)) else n)"

definition jointHead :: "runtime \<Rightarrow> heap \<Rightarrow> ref \<Rightarrow> nat \<Rightarrow> string list" where
  "jointHead E h bone level =
     [repeat ''  '' level @ ''JOINT '' @ jointLabel h bone,
      repeat ''  '' level @ ''{'',
      repeat ''  '' level @ ''  OFFSET '' @ toFixed E (vx (position (h bone))) 6
        @ '' '' @ toFixed E (vy (position (h bone))) 6
        @ '' '' @ toFixed E (vz (position (h bone))) 6,
      repeat ''  '' level
        @ ''  CHANNELS 6 Xposition Yposition Zposition Xrotation Yrotation Zrotation'']"

definition endSite :: "nat \<Rightarrow> string list" where
  "endSite level =
     [repeat ''  '' level @ ''  End Site'',
      repeat ''  '' level @ ''  {'',
      repeat ''  '' level @ ''    OFFSET 0.0 0.0 0.0'',
      repeat ''  '' level @ ''  }'']"

definition channelValues :: "runtime \<Rightarrow> heap \<Rightarrow> ref \<Rightarrow> string list" where
  "channelValues E h bone =
     [toFixed E (vx (position (h bone))) 6,
      toFixed E (vy (position (h bone))) 6,
      toFixed E (vz (position (h bone))) 6,
      toFixed E (radToDeg E (vx (setFromQuaternion E (quaternion (h bone)) ''XYZ''))) 6,
      toFixed E (radToDeg E (vy (setFromQuaternion E (quaternion (h bone)) ''XYZ''))) 6,
      toFixed E (radToDeg E (vz (setFromQuaternion E (quaternion (h bone)) ''XYZ''))) 6]"

text \<open>The test of the root choice: the parent is absent or is no bone.\<close>

definition noBoneParent :: "heap \<Rightarrow> ref \<Rightarrow> bool" where
  "noBoneParent h bone = (case parent (h bone) of None \<Rightarrow> True | Some p \<Rightarrow> \<not> isBone (h p))"

text \<open>
  The bones for which \<open>buildBVHHierarchy\<close> emits a joint block, in the order of emission:
  the recursion of \<open>buildBVHHierarchy\<close> with the text left out.
\<close>

fun hierarchyOrder :: "heap \<Rightarrow> nat \<Rightarrow> ref \<Rightarrow> ref list option" where
  "hierarchyOrder h 0 bone = None"
| "hierarchyOrder h (Suc fuel) bone =
     map_option (\<lambda>orders. bone # concat orders)
       (those (map (\<lambda>child. hierarchyOrder h fuel child) (boneChildren h bone)))"

text \<open>The bone-typed child links of the store, as pairs of child and parent.\<close>

definition boneLinks :: "heap \<Rightarrow> (ref \<times> ref) set" where
  "boneLinks h = {(child, bone). child \<in> set (boneChildren h bone)}"

subsection \<open>Conditions on the input\<close>

text \<open>No name in the store holds a line break.\<close>

definition wellNamed :: "heap \<Rightarrow> bool" where
  "wellNamed h = (\<forall>r. case name (h r) of None \<Rightarrow> True | Some n \<Rightarrow> CHR 0x0A \<notin> set n)"

text \<open>
  The store is a scene graph: the parent link of every child points back to the object
  that lists it, no object lists a child twice, and the bone-typed child links have no
  cycle. The bones then form a forest.
\<close>

definition sceneGraph :: "heap \<Rightarrow> bool" where
  "sceneGraph h =
     ((\<forall>p. \<forall>c \<in> set (children (h p)). parent (h c) = Some p)
      \<and> (\<forall>p. distinct (children (h p)))
      \<and> acyclic (boneLinks h))"

text \<open>
  The bone set holds all the bones of its model: with a bone, the bone-typed children of
  that bone.
\<close>

definition holdsBoneChildren :: "heap \<Rightarrow> ref list \<Rightarrow> bool" where
  "holdsBoneChildren h bones = (\<forall>b \<in> set bones. set (boneChildren h b) \<subseteq> set bones)"




subsection \<open>Reading the document\<close>

text \<open>
  The lines of a text in which every line ends with a line break; a line without its
  indentation; the joint header lines and the names they carry; the OFFSET lines and
  their values; the values of the last line, the motion line, and the Nth group of six
  among them, counted from 0.
\<close>

definition linesOf :: "string \<Rightarrow> string list" where
  "linesOf s = butlast (splitOn (CHR 0x0A) s)"

definition stripIndent :: "string \<Rightarrow> string" where
  "stripIndent x = dropWhile (\<lambda>c. c = CHR '' '') x"

definition isJointLine :: "string \<Rightarrow> bool" where
  "isJointLine x = prefix ''JOINT '' (stripIndent x)"

definition jointNames :: "string \<Rightarrow> string list" where
  "jointNames doc = map (\<lambda>x. drop 6 (stripIndent x)) (filter isJointLine (linesOf doc))"



definition motionValues :: "string \<Rightarrow> string list" where
  "motionValues doc = splitOn (CHR '' '') (last (linesOf doc))"

definition motionGroup :: "string \<Rightarrow> nat \<Rightarrow> string list" where
  "motionGroup doc N = take 6 (drop (6 * N) (motionValues doc))"





text \<open>
  Fixed-point notation with exactly \<open>f\<close> digits after the decimal point: an optional
  minus sign, at least one digit, the point, and \<open>f\<close> digits.
\<close>

definition isDigit :: "char \<Rightarrow> bool" where
  "isDigit c = (c \<in> set ''0123456789'')"


subsection \<open>Auxiliary notions of the proofs\<close>

text \<open>
  A line with its line break; the digits that \<open>toFixed\<close> splits at the point; words
  joined by single spaces; a string without white space; a line break followed by \<open>J\<close>
  somewhere in a string (where the pattern of the root rewrite could match); a line that
  the rewrite cannot touch; what every hierarchy block satisfies; what every line of the
  document satisfies as to its OFFSET values; an OFFSET line with three values of six
  decimals; a list of lines whose last two do not satisfy \<open>P\<close>.
\<close>

definition ln :: "string \<Rightarrow> string" where
  "ln x = x @ ''\<newline>''"

definition fixedDigits :: "rat \<Rightarrow> nat \<Rightarrow> string" where
  "fixedDigits x f =
     (let n = nat \<lfloor>x * 10 ^ f + 1 / 2\<rfloor>;
          m = (if n = 0 then ''0'' else showNat n)
      in if length m \<le> f then replicate (f + 1 - length m) (CHR ''0'') @ m else m)"

fun joinSp :: "string list \<Rightarrow> string" where
  "joinSp [] = []"
| "joinSp [w] = w"
| "joinSp (w # v # ws) = w @ '' '' @ joinSp (v # ws)"

definition token :: "string \<Rightarrow> bool" where
  "token s = (s \<noteq> [] \<and> (\<forall>c \<in> set s. \<not> isWhiteSpace c))"

fun nlJ :: "string \<Rightarrow> bool" where
  "nlJ [] = False"
| "nlJ [a] = False"
| "nlJ (a # b # s) = ((a = CHR 0x0A \<and> b = CHR ''J'') \<or> nlJ (b # s))"

definition plain :: "string \<Rightarrow> bool" where
  "plain x = (CHR 0x0A \<notin> set x \<and> x \<noteq> [] \<and> hd x \<noteq> CHR ''J'')"

definition blockOK :: "nat \<Rightarrow> string \<Rightarrow> bool" where
  "blockOK l s = (s \<noteq> [] \<and> last s = CHR 0x0A \<and> \<not> nlJ s
                  \<and> hd s = (if l = 0 then CHR ''J'' else CHR '' ''))"




declare buildBVHHierarchy.simps(2) [simp del]

subsection \<open>Sample skeletons\<close>

text \<open>
  A runtime for the samples. Their bones all have the identity rotation, whose Euler
  angles are zero, in radians and in degrees; the only magnitude of \<open>10^21\<close> or more in
  them is \<open>10^21\<close> itself, whose shortest digits are \<open>1\<close> with \<open>n = 22\<close> (it prints as
  \<open>1e+21\<close>).
\<close>

definition E1 :: runtime where
  "E1 = \<lparr>shortestDigits = (\<lambda>x. (1, 22)),
         setFromQuaternion = (\<lambda>q order. Vector3 (Finite 0) (Finite 0) (Finite 0)),
         radToDeg = (\<lambda>v. v)\<rparr>"

text \<open>A fresh scene-graph node: no bone, the empty name, at the origin, unrotated.\<close>

definition node :: object3D where
  "node = \<lparr>isBone = False, name = Some [], ident = 0,
           position = Vector3 (Finite 0) (Finite 0) (Finite 0),
           quaternion = Quaternion (Finite 0) (Finite 0) (Finite 0) (Finite 1),
           parent = None, children = []\<rparr>"

text \<open>
  The skeleton of the specification's scenario: the root \<open>R\<close> at \<open>(0, 0, 0)\<close>, its child
  \<open>A\<close> at \<open>(1, 0, 0)\<close>, and the leaf \<open>B\<close>, child of \<open>A\<close>, at \<open>(0, 1, 0)\<close>, under the
  references 10, 11 and 12; and the hierarchy block of \<open>R\<close>.
\<close>

definition skeleton3 :: heap where
  "skeleton3 =
     (\<lambda>r. node)
       (10 := node\<lparr>isBone := True, name := Some ''R'', ident := 10, children := [11]\<rparr>,
        11 := node\<lparr>isBone := True, name := Some ''A'', ident := 11,
                   position := Vector3 (Finite 1) (Finite 0) (Finite 0),
                   parent := Some 10, children := [12]\<rparr>,
        12 := node\<lparr>isBone := True, name := Some ''B'', ident := 12,
                   position := Vector3 (Finite 0) (Finite 1) (Finite 0),
                   parent := Some 11\<rparr>)"

definition block3 :: string where
  "block3 = ''JOINT R\<newline>{\<newline>  OFFSET 0.000000 0.000000 0.000000\<newline>  CHANNELS 6 Xposition Yposition Zposition Xrotation Yrotation Zrotation\<newline>  JOINT A\<newline>  {\<newline>    OFFSET 1.000000 0.000000 0.000000\<newline>    CHANNELS 6 Xposition Yposition Zposition Xrotation Yrotation Zrotation\<newline>    JOINT B\<newline>    {\<newline>      OFFSET 0.000000 1.000000 0.000000\<newline>      CHANNELS 6 Xposition Yposition Zposition Xrotation Yrotation Zrotation\<newline>      End Site\<newline>      {\<newline>        OFFSET 0.0 0.0 0.0\<newline>      }\<newline>    }\<newline>  }\<newline>}\<newline>''"

text \<open>
  The same skeleton with a second root under the reference 13: a bone without a name,
  without children, at \<open>(10^21, 0, -2.5)\<close>.
\<close>

definition skeleton4 :: heap where
  "skeleton4 =
     skeleton3(13 := node\<lparr>isBone := True, name := None, ident := 13,
                         position := Vector3 (Finite 1000000000000000000000) (Finite 0)
                                       (Finite (- (5 / 2)))\<rparr>)"

text \<open>
  Two bones without parent and without children, under the references 20 and 21: one
  whose name is the text that the root rewrite looks for, \<open>HIERARCHY\<close>, a line break,
  \<open>JOINT\<close>; and one whose name is the empty string.
\<close>

definition skeletonH :: heap where
  "skeletonH =
     (\<lambda>r. node)
       (20 := node\<lparr>isBone := True, name := Some ''HIERARCHY\<newline>JOINT'', ident := 20\<rparr>,
        21 := node\<lparr>isBone := True, ident := 21\<rparr>)"

text \<open>A page on which nothing has been exported yet.\<close>

definition emptyPage :: page where
  "emptyPage = \<lparr>nextURL = 0, objectURLs = Map.empty, bodyChildren = [], downloads = []\<rparr>"

section \<open>The string functions\<close>

subsection \<open>Digits and \<open>toFixed\<close>\<close>

lemma showNat_ne: "showNat n \<noteq> []"
  by (subst showNat.simps) simp

lemma digitChar_digit: "d < 10 \<Longrightarrow> isDigit (digitChar d)"
  unfolding isDigit_def digitChar_def by (rule nth_mem) simp

lemma showNat_digits: "c \<in> set (showNat n) \<Longrightarrow> isDigit c"
proof (induction n rule: showNat.induct)
  case (1 n)
  show ?case
  proof (cases "n < 10")
    case True
    with "1.prems" show ?thesis
      by (subst (asm) showNat.simps) (simp add: digitChar_digit)
  next
    case False
    with "1.prems" have "c \<in> set (showNat (n div 10)) \<or> c = digitChar (n mod 10)"
      by (subst (asm) showNat.simps) auto
    with False "1.IH" show ?thesis
      by (auto simp: digitChar_digit)
  qed
qed

lemma isDigit_not_ws: "isDigit c \<Longrightarrow> \<not> isWhiteSpace c"
  by (auto simp: isDigit_def isWhiteSpace_def)

lemma token_append: "token a \<Longrightarrow> token b \<Longrightarrow> token (a @ b)"
  by (auto simp: token_def)

lemma token_digits: "s \<noteq> [] \<Longrightarrow> \<forall>c \<in> set s. isDigit c \<Longrightarrow> token s"
  by (auto simp: token_def isDigit_not_ws)

lemma token_showNat: "token (showNat n)"
  by (rule token_digits) (auto simp: showNat_ne showNat_digits)

lemma token_lit: "token ''e+''" "token ''.''" "token ''-''" "token ''NaN''" "token ''Infinity''"
  "token ''-Infinity''" "token ''0''"
  by (simp_all add: token_def isWhiteSpace_def)

lemma token_append_l: "token a \<Longrightarrow> \<forall>c \<in> set b. \<not> isWhiteSpace c \<Longrightarrow> token (a @ b)"
  by (auto simp: token_def)

lemma token_append_r: "\<forall>c \<in> set a. \<not> isWhiteSpace c \<Longrightarrow> token b \<Longrightarrow> token (a @ b)"
  by (auto simp: token_def)

lemma token_chars: "token s \<Longrightarrow> \<forall>c \<in> set s. \<not> isWhiteSpace c"
  by (simp add: token_def)

lemma token_numberToString: "token (numberToString E x)"
proof -
  obtain s n where sn: "shortestDigits E x = (s, n)" by (cases "shortestDigits E x")
  have d: "token (showNat s)" by (rule token_showNat)
  have a: "\<forall>c \<in> set (take 1 (showNat s)). \<not> isWhiteSpace c"
    using token_chars[OF d] by (meson in_set_takeD)
  have b: "\<forall>c \<in> set (drop 1 (showNat s)). \<not> isWhiteSpace c"
    using token_chars[OF d] by (meson in_set_dropD)
  have "token (take 1 (showNat s) @ ''.'' @ drop 1 (showNat s))"
    by (rule token_append_r[OF a]) (rule token_append_l[OF token_lit(2) b])
  then have m: "token (if length (showNat s) = 1 then showNat s
                       else take 1 (showNat s) @ ''.'' @ drop 1 (showNat s))"
    using d by simp
  have "token (''e+'' @ showNat (n - 1))"
    by (rule token_append[OF token_lit(1) token_showNat])
  with m show ?thesis
    unfolding numberToString_def sn Let_def prod.case
    by (metis token_append)
qed

lemma isDigit_0: "isDigit (CHR ''0'')"
  by (simp add: isDigit_def)

lemma fixedDigits_digits: "c \<in> set (fixedDigits x f) \<Longrightarrow> isDigit c"
  by (auto simp: fixedDigits_def Let_def showNat_digits isDigit_0 split: if_splits)

lemma fixedDigits_length: "f < length (fixedDigits x f)"
  by (auto simp: fixedDigits_def Let_def)

lemma toFixed_Finite:
  "toFixed E (Finite q) f =
     (if q < 0 then ''-'' else '''')
     @ (if 10 ^ 21 \<le> \<bar>q\<bar> then numberToString E \<bar>q\<bar>
        else if f \<noteq> 0
             then take (length (fixedDigits \<bar>q\<bar> f) - f) (fixedDigits \<bar>q\<bar> f) @ ''.''
                  @ drop (length (fixedDigits \<bar>q\<bar> f) - f) (fixedDigits \<bar>q\<bar> f)
             else (let n = nat \<lfloor>\<bar>q\<bar> * 10 ^ f + 1 / 2\<rfloor> in if n = 0 then ''0'' else showNat n))"
  by (simp add: toFixed_def fixedDigits_def Let_def abs_if)

lemma token_fixed:
  "token (take (length (fixedDigits x f) - f) (fixedDigits x f) @ ''.''
          @ drop (length (fixedDigits x f) - f) (fixedDigits x f))"
proof -
  have a: "\<forall>c \<in> set (take (length (fixedDigits x f) - f) (fixedDigits x f)). \<not> isWhiteSpace c"
    by (meson in_set_takeD fixedDigits_digits isDigit_not_ws)
  have b: "\<forall>c \<in> set (drop (length (fixedDigits x f) - f) (fixedDigits x f)). \<not> isWhiteSpace c"
    by (meson in_set_dropD fixedDigits_digits isDigit_not_ws)
  show ?thesis
    by (rule token_append_r[OF a]) (rule token_append_l[OF token_lit(2) b])
qed

lemma token_toFixed: "token (toFixed E v f)"
proof (cases v)
  case (Finite q)
  have m: "token (if 10 ^ 21 \<le> \<bar>q\<bar> then numberToString E \<bar>q\<bar>
        else if f \<noteq> 0
             then take (length (fixedDigits \<bar>q\<bar> f) - f) (fixedDigits \<bar>q\<bar> f) @ ''.''
                  @ drop (length (fixedDigits \<bar>q\<bar> f) - f) (fixedDigits \<bar>q\<bar> f)
             else (let n = nat \<lfloor>\<bar>q\<bar> * 10 ^ f + 1 / 2\<rfloor> in if n = 0 then ''0'' else showNat n))"
    using token_fixed[of "\<bar>q\<bar>" f]
    by (simp add: token_numberToString token_showNat token_lit Let_def)
  show ?thesis
  proof (cases "q < 0")
    case True
    then show ?thesis
      unfolding Finite toFixed_Finite using token_append[OF token_lit(3) m] by simp
  next
    case False
    then show ?thesis
      unfolding Finite toFixed_Finite using m by simp
  qed
qed (simp_all add: toFixed_def token_lit)




subsection \<open>The rewrite of the root keyword\<close>

lemma nlJ_Cons: "nlJ s \<Longrightarrow> nlJ (c # s)"
  by (cases s) auto

lemma nlJ_append:
  "nlJ (a @ b) = (nlJ a \<or> nlJ b \<or> (a \<noteq> [] \<and> b \<noteq> [] \<and> last a = CHR 0x0A \<and> hd b = CHR ''J''))"
proof (induction a rule: nlJ.induct)
  case 1
  show ?case by simp
next
  case (2 v)
  show ?case by (cases b) auto
next
  case (3 x y s)
  then show ?case by auto
qed

lemma nlJ_line:
  "CHR 0x0A \<notin> set a \<Longrightarrow> nlJ (a @ CHR 0x0A # b) = ((b \<noteq> [] \<and> hd b = CHR ''J'') \<or> nlJ b)"
proof (induction a rule: nlJ.induct)
  case 1
  show ?case by (cases b) auto
next
  case (2 v)
  then show ?case by (cases b) auto
next
  case (3 x y s)
  then show ?case by auto
qed

lemma replace_noop:
  "\<not> nlJ s \<Longrightarrow> replace s ''HIERARCHY\<newline>JOINT'' rep = s"
proof (induction s)
  case Nil
  show ?case by simp
next
  case (Cons c s)
  have np: "\<not> prefix ''HIERARCHY\<newline>JOINT'' (c # s)"
  proof
    assume "prefix ''HIERARCHY\<newline>JOINT'' (c # s)"
    then obtain t where t: "c # s = ''HIERARCHY\<newline>JOINT'' @ t" by (auto elim: prefixE)
    have "nlJ ''HIERARCHY\<newline>JOINT''" by simp
    then have "nlJ (''HIERARCHY\<newline>JOINT'' @ t)" by (subst nlJ_append) blast
    with t Cons.prems show False by simp
  qed
  from Cons.prems have "\<not> nlJ s" using nlJ_Cons by blast
  with Cons.IH have ih: "replace s ''HIERARCHY\<newline>JOINT'' rep = s" .
  have "replace (c # s) ''HIERARCHY\<newline>JOINT'' rep
        = c # replace s ''HIERARCHY\<newline>JOINT'' rep"
    using np by (simp only: replace.simps if_False)
  with ih show ?case by simp
qed

lemma replace_keep:
  "pat \<noteq> [] \<Longrightarrow> hd pat \<notin> set a \<Longrightarrow> replace (a @ s) pat rep = a @ replace s pat rep"
proof (induction a)
  case Nil
  show ?case by simp
next
  case (Cons c a)
  from Cons.prems have "\<not> prefix pat (c # a @ s)" by (cases pat) auto
  with Cons show ?case by simp
qed

lemma replace_last:
  "s \<noteq> [] \<Longrightarrow> pat \<noteq> [] \<Longrightarrow> last s \<noteq> last pat \<Longrightarrow>
   replace s pat rep \<noteq> [] \<and> last (replace s pat rep) = last s"
proof (induction s)
  case Nil
  then show ?case by simp
next
  case (Cons c s)
  show ?case
  proof (cases "prefix pat (c # s)")
    case True
    then obtain t where t: "c # s = pat @ t" by (auto elim: prefixE)
    with Cons.prems have tne: "t \<noteq> []" by auto
    have "replace (c # s) pat rep = rep @ drop (length pat) (c # s)"
      using True by simp
    also have "\<dots> = rep @ t" unfolding t by simp
    finally have r: "replace (c # s) pat rep = rep @ t" .
    have "last (c # s) = last t" unfolding t using tne by simp
    with r tne show ?thesis by simp
  next
    case False
    show ?thesis
    proof (cases s)
      case Nil
      with False Cons.prems show ?thesis by simp
    next
      case (Cons d r)
      with Cons.prems Cons.IH False show ?thesis by simp
    qed
  qed
qed

subsection \<open>Splitting into lines\<close>

lemma splitOn_ne: "splitOn c s \<noteq> []"
  by (induction s) (auto split: list.splits)

lemma splitOn_none: "c \<notin> set a \<Longrightarrow> splitOn c a = [a]"
  by (induction a) auto

lemma splitOn_line: "c \<notin> set a \<Longrightarrow> splitOn c (a @ c # b) = a # splitOn c b"
  by (induction a) auto

lemma linesOf_Nil: "linesOf [] = []"
  by (simp add: linesOf_def)

lemma linesOf_line: "CHR 0x0A \<notin> set a \<Longrightarrow> linesOf (a @ CHR 0x0A # b) = a # linesOf b"
  by (simp add: linesOf_def splitOn_line splitOn_ne)

lemma linesOf_append:
  "a = [] \<or> last a = CHR 0x0A \<Longrightarrow> linesOf (a @ b) = linesOf a @ linesOf b"
proof (induction a rule: length_induct)
  case (1 a)
  show ?case
  proof (cases "a = []")
    case True
    then show ?thesis by (simp add: linesOf_Nil)
  next
    case False
    with "1.prems" have "CHR 0x0A \<in> set a" by (metis last_in_set)
    then obtain a1 a2 where a: "a = a1 @ CHR 0x0A # a2" and a1: "CHR 0x0A \<notin> set a1"
      by (meson split_list_first)
    from a False "1.prems" have a2: "a2 = [] \<or> last a2 = CHR 0x0A"
      by (auto split: if_splits)
    from a have "length a2 < length a" by simp
    with "1.IH" a2 have "linesOf (a2 @ b) = linesOf a2 @ linesOf b" by blast
    then show ?thesis
      unfolding a using a1 linesOf_line[OF a1, of "a2 @ b"] linesOf_line[OF a1, of a2] by simp
  qed
qed

subsection \<open>The motion line\<close>

lemma concat_sp: "ws \<noteq> [] \<Longrightarrow> concat (map (\<lambda>w. w @ '' '') ws) = joinSp ws @ '' ''"
  by (induction ws rule: joinSp.induct) auto

lemma joinSp_ends:
  "ws \<noteq> [] \<Longrightarrow> \<forall>w \<in> set ws. token w \<Longrightarrow>
   joinSp ws \<noteq> [] \<and> \<not> isWhiteSpace (hd (joinSp ws)) \<and> \<not> isWhiteSpace (last (joinSp ws))"
proof (induction ws rule: joinSp.induct)
  case 1
  then show ?case by simp
next
  case (2 w)
  then show ?case by (cases w) (auto simp: token_def)
next
  case (3 w v ws)
  then show ?case by (cases w) (auto simp: token_def)
qed

lemma trim_sp:
  assumes "s \<noteq> []" "\<not> isWhiteSpace (hd s)" "\<not> isWhiteSpace (last s)"
  shows "trim (s @ '' '') = s"
proof -
  have 1: "dropWhile isWhiteSpace (s @ '' '') = s @ '' ''"
    using assms by (cases s) auto
  have 2: "dropWhile isWhiteSpace (rev s) = rev s"
    using assms by (cases "rev s") (auto simp: last_rev hd_rev)
  have 3: "isWhiteSpace (CHR '' '')" by (simp add: isWhiteSpace_def)
  show ?thesis
    unfolding trim_def 1 using 2 3 by simp
qed

lemma splitOn_joinSp:
  "ws \<noteq> [] \<Longrightarrow> \<forall>w \<in> set ws. CHR '' '' \<notin> set w \<Longrightarrow> splitOn (CHR '' '') (joinSp ws) = ws"
proof (induction ws rule: joinSp.induct)
  case 1
  then show ?case by simp
next
  case (2 w)
  then show ?case by (simp add: splitOn_none)
next
  case (3 w v ws)
  then show ?case using splitOn_line[of "CHR '' ''" w "joinSp (v # ws)"] by simp
qed

lemma token_no_sp: "token w \<Longrightarrow> CHR '' '' \<notin> set w"
  by (auto simp: token_def isWhiteSpace_def)

lemma token_no_nl: "token w \<Longrightarrow> CHR 0x0A \<notin> set w"
  by (auto simp: token_def isWhiteSpace_def)

lemma joinSp_no_nl: "\<forall>w \<in> set ws. CHR 0x0A \<notin> set w \<Longrightarrow> CHR 0x0A \<notin> set (joinSp ws)"
  by (induction ws rule: joinSp.induct) auto

lemma foldl_append_fun: "foldl (\<lambda>m b. m @ g b) acc bs = acc @ concat (map g bs)"
  by (induction bs arbitrary: acc) auto

lemma motion_concat:
  "buildBVHMotion E h bones
   = trim (concat (map (\<lambda>w. w @ '' '') (concat (map (channelValues E h) bones)))) @ ''\<newline>''"
proof -
  have "(\<lambda>motion bone.
             let pos = position (h bone);
                 rot = setFromQuaternion E (quaternion (h bone)) ''XYZ'';
                 posValues = toFixed E (vx pos) 6 @ '' '' @ toFixed E (vy pos) 6
                             @ '' '' @ toFixed E (vz pos) 6;
                 rotValues = toFixed E (radToDeg E (vx rot)) 6
                             @ '' '' @ toFixed E (radToDeg E (vy rot)) 6
                             @ '' '' @ toFixed E (radToDeg E (vz rot)) 6
             in motion @ posValues @ '' '' @ rotValues @ '' '')
        = (\<lambda>motion bone. motion @ concat (map (\<lambda>w. w @ '' '') (channelValues E h bone)))"
    by (simp add: channelValues_def Let_def fun_eq_iff)
  moreover have "concat (map (\<lambda>bone. concat (map (\<lambda>w. w @ '' '') (channelValues E h bone))) bones)
        = concat (map (\<lambda>w. w @ '' '') (concat (map (channelValues E h) bones)))"
    by (induction bones) auto
  ultimately show ?thesis
    unfolding buildBVHMotion_def by (simp only: foldl_append_fun append_Nil)
qed

lemma channelValues_tokens: "\<forall>w \<in> set (channelValues E h b). token w"
  by (simp add: channelValues_def token_toFixed)

lemma motion_line:
  assumes "bones \<noteq> []"
  shows "buildBVHMotion E h bones = joinSp (concat (map (channelValues E h) bones)) @ ''\<newline>''"
proof -
  let ?ws = "concat (map (channelValues E h) bones)"
  have ne: "?ws \<noteq> []" using assms by (cases bones) (auto simp: channelValues_def)
  have tk: "\<forall>w \<in> set ?ws. token w" using channelValues_tokens by auto
  have "trim (joinSp ?ws @ '' '') = joinSp ?ws"
    using joinSp_ends[OF ne tk] by (intro trim_sp) auto
  then show ?thesis
    unfolding motion_concat concat_sp[OF ne] by simp
qed

section \<open>The hierarchy block\<close>

lemma foldl_opt:
  "foldl (\<lambda>acc c. case acc of None \<Rightarrow> None
                   | Some str \<Rightarrow> (case f c of None \<Rightarrow> None | Some s \<Rightarrow> Some (str @ s))) acc cs
   = (case acc of None \<Rightarrow> None
      | Some str \<Rightarrow> map_option (\<lambda>bs. str @ concat bs) (those (map f cs)))"
proof (induction cs arbitrary: acc)
  case Nil
  show ?case by (cases acc) auto
next
  case (Cons c cs)
  show ?case
  proof (cases acc)
    case None
    then show ?thesis using Cons.IH[of None] by simp
  next
    case (Some str)
    show ?thesis
    proof (cases "f c")
      case None
      then show ?thesis using Some Cons.IH[of None] by simp
    next
      case (Some s)
      then show ?thesis using \<open>acc = Some str\<close> Cons.IH[of "Some (str @ s)"]
        by (cases "those (map f cs)") auto
    qed
  qed
qed

lemma those_map_all2:
  "(those (map f xs) = Some ys) = list_all2 (\<lambda>x y. f x = Some y) xs ys"
proof (induction xs arbitrary: ys)
  case Nil
  show ?case by auto
next
  case (Cons x xs)
  show ?case
  proof (cases "f x")
    case None
    then show ?thesis by (auto simp: list_all2_Cons1)
  next
    case (Some y)
    then show ?thesis using Cons.IH
      by (cases "those (map f xs)") (auto simp: list_all2_Cons1)
  qed
qed

lemma build_raw:
  "buildBVHHierarchy E h (Suc n) b l
   = map_option
       (\<lambda>bs. replace (concat (map ln (jointHead E h b l))
                       @ (if boneChildren h b = [] then concat (map ln (endSite l)) else concat bs)
                       @ ln (repeat ''  '' l @ ''}''))
                ''HIERARCHY\<newline>JOINT'' ''HIERARCHY\<newline>ROOT'')
       (those (map (\<lambda>c. buildBVHHierarchy E h n c (Suc l)) (boneChildren h b)))"
proof (cases "boneChildren h b = []")
  case True
  then show ?thesis
    by (simp add: buildBVHHierarchy.simps boneChildren_def jointHead_def jointLabel_def endSite_def
             ln_def Let_def)
next
  case False
  then show ?thesis
    by (simp add: buildBVHHierarchy.simps foldl_opt boneChildren_def jointHead_def jointLabel_def
             ln_def Let_def
             option.map_comp comp_def split: option.splits)
qed

lemma repeat_0: "repeat s 0 = []"
  by (simp add: repeat_def)

lemma repeat_Suc: "repeat s (Suc n) = s @ repeat s n"
  by (simp add: repeat_def)

lemma set_indent: "set (repeat ''  '' l) \<subseteq> {CHR '' ''}"
  by (induction l) (auto simp: repeat_0 repeat_Suc)

lemma nl_indent: "CHR 0x0A \<notin> set (repeat ''  '' l)"
  using set_indent[of l] by auto

lemma hd_indent: "hd (repeat ''  '' l @ c # r) = (if l = 0 then c else CHR '' '')"
  by (cases l) (auto simp: repeat_0 repeat_Suc)

lemma nlJ_ln:
  "CHR 0x0A \<notin> set x \<Longrightarrow> nlJ (ln x @ b) = ((b \<noteq> [] \<and> hd b = CHR ''J'') \<or> nlJ b)"
  using nlJ_line[of x b] by (simp add: ln_def)

lemma ln_ne: "ln x \<noteq> []"
  by (simp add: ln_def)

lemma hd_ln: "x \<noteq> [] \<Longrightarrow> hd (ln x @ b) = hd x"
  by (simp add: ln_def)

lemma last_ln: "last (a @ ln x) = CHR 0x0A"
  by (simp add: ln_def)

lemma nlJ_lines:
  "\<forall>x \<in> set L. plain x \<Longrightarrow>
   nlJ (concat (map ln L) @ b) = (nlJ b \<or> (L \<noteq> [] \<and> b \<noteq> [] \<and> hd b = CHR ''J''))"
proof (induction L)
  case Nil
  show ?case by simp
next
  case (Cons x L)
  then have x: "CHR 0x0A \<notin> set x" and IH: "nlJ (concat (map ln L) @ b)
      = (nlJ b \<or> (L \<noteq> [] \<and> b \<noteq> [] \<and> hd b = CHR ''J''))"
    by (auto simp: plain_def)
  have "nlJ (concat (map ln (x # L)) @ b) = nlJ (ln x @ (concat (map ln L) @ b))" by simp
  also have "\<dots> = ((concat (map ln L) @ b \<noteq> [] \<and> hd (concat (map ln L) @ b) = CHR ''J'')
                   \<or> nlJ (concat (map ln L) @ b))"
    by (rule nlJ_ln[OF x])
  finally have e: "nlJ (concat (map ln (x # L)) @ b)
     = ((concat (map ln L) @ b \<noteq> [] \<and> hd (concat (map ln L) @ b) = CHR ''J'')
                   \<or> nlJ (concat (map ln L) @ b))" .
  show ?case
  proof (cases L)
    case Nil
    then show ?thesis using e by auto
  next
    case (Cons y L')
    with Cons.prems have "plain y" by simp
    then have "hd (concat (map ln L) @ b) \<noteq> CHR ''J''"
      unfolding Cons by (simp add: plain_def hd_ln)
    with e IH Cons show ?thesis by auto
  qed
qed

lemma nlJ_blocks:
  "\<forall>s \<in> set bs. blockOK (Suc l) s \<Longrightarrow>
   nlJ (concat bs @ r) = (nlJ r \<or> (bs \<noteq> [] \<and> r \<noteq> [] \<and> hd r = CHR ''J''))"
proof (induction bs)
  case Nil
  show ?case by simp
next
  case (Cons s bs)
  then have s: "s \<noteq> []" "last s = CHR 0x0A" "\<not> nlJ s"
    and IH: "nlJ (concat bs @ r) = (nlJ r \<or> (bs \<noteq> [] \<and> r \<noteq> [] \<and> hd r = CHR ''J''))"
    by (auto simp: blockOK_def)
  have e: "nlJ (concat (s # bs) @ r)
           = (nlJ (concat bs @ r) \<or> (concat bs @ r \<noteq> [] \<and> hd (concat bs @ r) = CHR ''J''))"
    using s nlJ_append[of s "concat bs @ r"] by auto
  show ?case
  proof (cases bs)
    case Nil
    then show ?thesis using e by auto
  next
    case (Cons t bs')
    with Cons.prems have "blockOK (Suc l) t" by simp
    then have "hd (concat bs @ r) \<noteq> CHR ''J''"
      unfolding Cons by (auto simp: blockOK_def)
    with e IH Cons show ?thesis by auto
  qed
qed

lemma hd_blocks:
  "\<forall>s \<in> set bs. blockOK (Suc l) s \<Longrightarrow> bs \<noteq> [] \<Longrightarrow> hd (concat bs @ r) = CHR '' ''"
  by (cases bs) (auto simp: blockOK_def)

lemma nl_label: "wellNamed h \<Longrightarrow> CHR 0x0A \<notin> set (jointLabel h b)"
proof -
  assume w: "wellNamed h"
  have d: "CHR 0x0A \<notin> set (showNat (ident (h b)))"
    using token_no_nl[OF token_showNat] .
  show ?thesis
  proof (cases "name (h b)")
    case None
    then show ?thesis using d by (simp add: jointLabel_def)
  next
    case (Some n)
    with w have "CHR 0x0A \<notin> set n"
      unfolding wellNamed_def by (metis option.simps(5))
    with Some d show ?thesis by (simp add: jointLabel_def)
  qed
qed

lemma nl_toFixed: "CHR 0x0A \<notin> set (toFixed E v f)"
  using token_no_nl[OF token_toFixed] .

lemma plain_indent: "CHR 0x0A \<notin> set r \<Longrightarrow> c \<noteq> CHR 0x0A \<Longrightarrow> c \<noteq> CHR ''J'' \<Longrightarrow>
   plain (repeat ''  '' l @ c # r)"
  using nl_indent[of l] by (simp add: plain_def hd_indent)

lemma plain_head_tl: "\<forall>x \<in> set (tl (jointHead E h b l)). plain x"
  using nl_toFixed by (simp add: jointHead_def plain_indent)

lemma plain_endSite: "\<forall>x \<in> set (endSite l). plain x"
  by (simp add: endSite_def plain_indent)

lemma plain_close: "plain (repeat ''  '' l @ ''}'')"
  by (simp add: plain_indent)

lemma head_first:
  "wellNamed h \<Longrightarrow> CHR 0x0A \<notin> set (hd (jointHead E h b l))"
  "hd (hd (jointHead E h b l)) = (if l = 0 then CHR ''J'' else CHR '' '')"
  "hd (jointHead E h b l) \<noteq> []"
  using nl_indent[of l] nl_label[of h b] by (simp_all add: jointHead_def hd_indent)

lemma head_split: "jointHead E h b l = hd (jointHead E h b l) # tl (jointHead E h b l)"
  by (simp add: jointHead_def)

lemma text_ok:
  assumes w: "wellNamed h"
    and bs: "\<forall>y \<in> set bs. blockOK (Suc l) y"
    and ne: "boneChildren h b = [] \<or> bs \<noteq> []"
  shows "blockOK l (concat (map ln (jointHead E h b l))
                    @ (if boneChildren h b = [] then concat (map ln (endSite l)) else concat bs)
                    @ ln (repeat ''  '' l @ ''}''))"
proof -
  let ?c = "ln (repeat ''  '' l @ ''}'')"
  let ?body = "(if boneChildren h b = [] then concat (map ln (endSite l)) else concat bs) @ ?c"
  let ?x = "hd (jointHead E h b l)"
  let ?L = "tl (jointHead E h b l)"
  let ?T = "concat (map ln (jointHead E h b l)) @ ?body"
  have c: "\<not> nlJ ?c" "hd ?c \<noteq> CHR ''J''" "?c \<noteq> []"
    using nlJ_lines[of "[repeat ''  '' l @ ''}'']" "[]"] plain_close[of l]
    by (auto simp: plain_def hd_ln[of _ "[]", simplified] ln_ne)
  have body: "\<not> nlJ ?body \<and> hd ?body \<noteq> CHR ''J''"
  proof (cases "boneChildren h b = []")
    case True
    have "hd (concat (map ln (endSite l)) @ ?c) \<noteq> CHR ''J''"
      using plain_endSite[of l] by (simp add: endSite_def hd_ln plain_def)
    then show ?thesis
      using True c nlJ_lines[OF plain_endSite, of l ?c] by simp
  next
    case False
    with ne have "bs \<noteq> []" by simp
    then show ?thesis
      using False c nlJ_blocks[OF bs, of ?c] hd_blocks[OF bs, of ?c] by simp
  qed
  have T: "?T = ln ?x @ (concat (map ln ?L) @ ?body)"
    by (subst head_split) simp
  have L: "nlJ (concat (map ln ?L) @ ?body) = False"
    using nlJ_lines[OF plain_head_tl, of E h b l ?body] body by simp
  have hdL: "hd (concat (map ln ?L) @ ?body) \<noteq> CHR ''J''"
    using plain_head_tl[of E h b l] by (simp add: jointHead_def hd_ln plain_def)
  have "\<not> nlJ ?T"
    unfolding T using nlJ_ln[OF head_first(1)[OF w], of E b l "concat (map ln ?L) @ ?body"] L hdL
    by simp
  moreover have "hd ?T = (if l = 0 then CHR ''J'' else CHR '' '')"
    unfolding T using head_first(2,3)[of E h b l] by (simp add: hd_ln)
  moreover have "?T \<noteq> []" unfolding T by (simp add: ln_ne)
  moreover have "last ?T = CHR 0x0A"
    using last_ln[of "concat (map ln (jointHead E h b l))
        @ (if boneChildren h b = [] then concat (map ln (endSite l)) else concat bs)"
        "repeat ''  '' l @ ''}''"] by simp
  ultimately show ?thesis by (simp add: blockOK_def)
qed

lemma all2_set: "list_all2 P xs ys \<Longrightarrow> y \<in> set ys \<Longrightarrow> \<exists>x \<in> set xs. P x y"
  by (induction rule: list_all2_induct) auto

lemma all2_ne: "list_all2 P xs ys \<Longrightarrow> xs \<noteq> [] \<Longrightarrow> ys \<noteq> []"
  by auto

lemma build_inv:
  "wellNamed h \<Longrightarrow> buildBVHHierarchy E h n b l = Some s \<Longrightarrow> blockOK l s"
proof (induction n arbitrary: b l s)
  case 0
  then show ?case by simp
next
  case (Suc n)
  let ?f = "\<lambda>c. buildBVHHierarchy E h n c (Suc l)"
  from Suc.prems(2) obtain bs where bs: "those (map ?f (boneChildren h b)) = Some bs"
    and s: "s = replace (concat (map ln (jointHead E h b l))
                       @ (if boneChildren h b = [] then concat (map ln (endSite l)) else concat bs)
                       @ ln (repeat ''  '' l @ ''}''))
                ''HIERARCHY\<newline>JOINT'' ''HIERARCHY\<newline>ROOT''"
    unfolding build_raw by auto
  from bs have a2: "list_all2 (\<lambda>x y. ?f x = Some y) (boneChildren h b) bs"
    by (simp add: those_map_all2)
  have ok: "\<forall>y \<in> set bs. blockOK (Suc l) y"
    using all2_set[OF a2] Suc.IH[OF Suc.prems(1)] by blast
  have ne: "boneChildren h b = [] \<or> bs \<noteq> []"
    using all2_ne[OF a2] by blast
  have T: "blockOK l (concat (map ln (jointHead E h b l))
                    @ (if boneChildren h b = [] then concat (map ln (endSite l)) else concat bs)
                    @ ln (repeat ''  '' l @ ''}''))"
    by (rule text_ok[OF Suc.prems(1) ok ne])
  then have "\<not> nlJ (concat (map ln (jointHead E h b l))
                    @ (if boneChildren h b = [] then concat (map ln (endSite l)) else concat bs)
                    @ ln (repeat ''  '' l @ ''}''))"
    by (simp add: blockOK_def)
  from replace_noop[OF this] s T show ?case by simp
qed

lemma build_Suc:
  assumes w: "wellNamed h"
  shows "buildBVHHierarchy E h (Suc n) b l
   = map_option
       (\<lambda>bs. concat (map ln (jointHead E h b l))
              @ (if boneChildren h b = [] then concat (map ln (endSite l)) else concat bs)
              @ ln (repeat ''  '' l @ ''}''))
       (those (map (\<lambda>c. buildBVHHierarchy E h n c (Suc l)) (boneChildren h b)))"
proof (cases "those (map (\<lambda>c. buildBVHHierarchy E h n c (Suc l)) (boneChildren h b))")
  case None
  then show ?thesis unfolding build_raw by simp
next
  case (Some bs)
  let ?f = "\<lambda>c. buildBVHHierarchy E h n c (Suc l)"
  from Some have a2: "list_all2 (\<lambda>x y. ?f x = Some y) (boneChildren h b) bs"
    by (simp add: those_map_all2)
  have ok: "\<forall>y \<in> set bs. blockOK (Suc l) y"
    using all2_set[OF a2] build_inv[OF w] by blast
  have ne: "boneChildren h b = [] \<or> bs \<noteq> []"
    using all2_ne[OF a2] by blast
  have "\<not> nlJ (concat (map ln (jointHead E h b l))
                    @ (if boneChildren h b = [] then concat (map ln (endSite l)) else concat bs)
                    @ ln (repeat ''  '' l @ ''}''))"
    using text_ok[OF w ok ne, of E] by (simp add: blockOK_def)
  from replace_noop[OF this] Some show ?thesis unfolding build_raw by simp
qed

lemma build_mono:
  "buildBVHHierarchy E h n b l = Some s \<Longrightarrow> buildBVHHierarchy E h (Suc n) b l = Some s"
proof (induction n arbitrary: b l s)
  case 0
  then show ?case by simp
next
  case (Suc n)
  let ?f = "\<lambda>c. buildBVHHierarchy E h n c (Suc l)"
  let ?g = "\<lambda>c. buildBVHHierarchy E h (Suc n) c (Suc l)"
  from Suc.prems obtain bs where bs: "those (map ?f (boneChildren h b)) = Some bs"
    unfolding build_raw[of E h n] by auto
  then have "list_all2 (\<lambda>x y. ?f x = Some y) (boneChildren h b) bs"
    by (simp add: those_map_all2)
  then have "list_all2 (\<lambda>x y. ?g x = Some y) (boneChildren h b) bs"
    using Suc.IH by (auto elim!: list_all2_mono)
  then have "those (map ?g (boneChildren h b)) = Some bs"
    by (simp add: those_map_all2)
  with bs Suc.prems show ?case
    unfolding build_raw[of E h n] build_raw[of E h "Suc n"] by simp
qed

lemma build_mono_le:
  "buildBVHHierarchy E h n b l = Some s \<Longrightarrow> n \<le> m \<Longrightarrow> buildBVHHierarchy E h m b l = Some s"
  by (induction m) (auto simp del: buildBVHHierarchy.simps simp: le_Suc_eq build_mono)

subsection \<open>The lines of a block\<close>

lemma splitOn_append:
  "a = [] \<or> last a = CHR 0x0A \<Longrightarrow> splitOn (CHR 0x0A) (a @ b) = linesOf a @ splitOn (CHR 0x0A) b"
proof (induction a rule: length_induct)
  case (1 a)
  show ?case
  proof (cases "a = []")
    case True
    then show ?thesis by (simp add: linesOf_Nil)
  next
    case False
    with "1.prems" have "CHR 0x0A \<in> set a" by (metis last_in_set)
    then obtain a1 a2 where a: "a = a1 @ CHR 0x0A # a2" and a1: "CHR 0x0A \<notin> set a1"
      by (meson split_list_first)
    from a False "1.prems" have a2: "a2 = [] \<or> last a2 = CHR 0x0A"
      by (auto split: if_splits)
    from a have "length a2 < length a" by simp
    with "1.IH" a2 have "splitOn (CHR 0x0A) (a2 @ b) = linesOf a2 @ splitOn (CHR 0x0A) b" by blast
    then show ?thesis
      unfolding a using splitOn_line[OF a1, of "a2 @ b"] linesOf_line[OF a1, of a2] by simp
  qed
qed

lemma linesOf_ln: "CHR 0x0A \<notin> set x \<Longrightarrow> linesOf (ln x @ r) = x # linesOf r"
  using linesOf_line[of x r] by (simp add: ln_def)

lemma linesOf_lines:
  "\<forall>x \<in> set L. CHR 0x0A \<notin> set x \<Longrightarrow> linesOf (concat (map ln L) @ r) = L @ linesOf r"
  by (induction L) (auto simp: linesOf_ln)

lemma linesOf_blocks:
  "\<forall>s \<in> set bs. blockOK l s \<Longrightarrow> linesOf (concat bs @ r) = concat (map linesOf bs) @ linesOf r"
  by (induction bs) (auto simp: linesOf_append blockOK_def)

lemma nl_head: "wellNamed h \<Longrightarrow> \<forall>x \<in> set (jointHead E h b l). CHR 0x0A \<notin> set x"
  using head_first(1)[of h E b l] plain_head_tl[of E h b l]
  by (subst head_split) (auto simp: plain_def)

lemma nl_endSite: "\<forall>x \<in> set (endSite l). CHR 0x0A \<notin> set x"
  using plain_endSite[of l] by (auto simp: plain_def)

lemma nl_close: "CHR 0x0A \<notin> set (repeat ''  '' l @ ''}'')"
  using plain_close[of l] by (auto simp: plain_def)

lemma lines_block:
  assumes w: "wellNamed h" and s: "buildBVHHierarchy E h (Suc n) b l = Some s"
  shows "\<exists>bs. list_all2 (\<lambda>c y. buildBVHHierarchy E h n c (Suc l) = Some y) (boneChildren h b) bs
            \<and> linesOf s = jointHead E h b l
                 @ (if boneChildren h b = [] then endSite l else concat (map linesOf bs))
                 @ [repeat ''  '' l @ ''}'']"
proof -
  let ?f = "\<lambda>c. buildBVHHierarchy E h n c (Suc l)"
  from s obtain bs where bs: "those (map ?f (boneChildren h b)) = Some bs"
    and s': "s = concat (map ln (jointHead E h b l))
                 @ (if boneChildren h b = [] then concat (map ln (endSite l)) else concat bs)
                 @ ln (repeat ''  '' l @ ''}'')"
    unfolding build_Suc[OF w] by auto
  from bs have a2: "list_all2 (\<lambda>x y. ?f x = Some y) (boneChildren h b) bs"
    by (simp add: those_map_all2)
  have ok: "\<forall>y \<in> set bs. blockOK (Suc l) y"
    using all2_set[OF a2] build_inv[OF w] by blast
  have c: "linesOf (ln (repeat ''  '' l @ ''}'')) = [repeat ''  '' l @ ''}'']"
    using linesOf_ln[OF nl_close, of l "[]"] by (simp add: linesOf_Nil)
  have body: "linesOf ((if boneChildren h b = [] then concat (map ln (endSite l)) else concat bs)
                       @ ln (repeat ''  '' l @ ''}''))
              = (if boneChildren h b = [] then endSite l else concat (map linesOf bs))
                @ [repeat ''  '' l @ ''}'']"
    using linesOf_lines[OF nl_endSite, of l] linesOf_blocks[OF ok] c by simp
  have "linesOf s = jointHead E h b l
                 @ (if boneChildren h b = [] then endSite l else concat (map linesOf bs))
                 @ [repeat ''  '' l @ ''}'']"
    unfolding s' using linesOf_lines[OF nl_head[OF w], of E b l] body by simp
  with a2 show ?thesis by blast
qed

lemma build_last:
  "buildBVHHierarchy E h n b l = Some s \<Longrightarrow> s \<noteq> [] \<and> last s = CHR 0x0A"
proof (cases n)
  case 0
  assume "buildBVHHierarchy E h n b l = Some s"
  with 0 show ?thesis by simp
next
  case (Suc m)
  assume "buildBVHHierarchy E h n b l = Some s"
  then obtain bs where
    s: "s = replace (concat (map ln (jointHead E h b l))
                       @ (if boneChildren h b = [] then concat (map ln (endSite l)) else concat bs)
                       @ ln (repeat ''  '' l @ ''}''))
                ''HIERARCHY\<newline>JOINT'' ''HIERARCHY\<newline>ROOT''"
    unfolding Suc build_raw by auto
  let ?T = "concat (map ln (jointHead E h b l))
                       @ (if boneChildren h b = [] then concat (map ln (endSite l)) else concat bs)
                       @ ln (repeat ''  '' l @ ''}'')"
  have l: "last ?T = CHR 0x0A"
    using last_ln[of "concat (map ln (jointHead E h b l))
        @ (if boneChildren h b = [] then concat (map ln (endSite l)) else concat bs)"
        "repeat ''  '' l @ ''}''"] by simp
  have ne: "?T \<noteq> []" by (simp add: ln_ne)
  have "last ?T \<noteq> last ''HIERARCHY\<newline>JOINT''" unfolding l by simp
  from replace_last[OF ne _ this, of "''HIERARCHY\<newline>ROOT''"] l s show ?thesis by simp
qed

subsection \<open>The traversal order\<close>

lemma those_map_None: "(those (map f xs) = None) = (\<exists>x \<in> set xs. f x = None)"
proof (induction xs)
  case Nil
  show ?case by simp
next
  case (Cons x xs)
  then show ?case by (cases "f x"; cases "those (map f xs)") auto
qed

lemma order_None:
  "(hierarchyOrder h n b = None) = (buildBVHHierarchy E h n b l = None)"
proof (induction n arbitrary: b l)
  case 0
  show ?case by simp
next
  case (Suc n)
  have "(those (map (\<lambda>c. hierarchyOrder h n c) (boneChildren h b)) = None)
        = (those (map (\<lambda>c. buildBVHHierarchy E h n c (Suc l)) (boneChildren h b)) = None)"
    unfolding those_map_None using Suc.IH by blast
  then show ?case unfolding build_raw by simp
qed

section \<open>Evaluation on the sample skeleton\<close>

lemma floor_rat_numeral: "\<lfloor>numeral a / numeral b :: rat\<rfloor> = numeral a div numeral b"
  using floor_divide_of_int_eq[of "numeral a" "numeral b", where ?'a = rat] by simp

lemma floor_rat_one: "\<lfloor>1 / numeral b :: rat\<rfloor> = 1 div numeral b"
  using floor_divide_of_int_eq[of 1 "numeral b", where ?'a = rat] by simp

lemma showNat_small: "n < 10 \<Longrightarrow> showNat n = [digitChar n]"
  by (subst showNat.simps) simp

lemma showNat_large: "\<not> n < 10 \<Longrightarrow> showNat n = showNat (n div 10) @ [digitChar (n mod 10)]"
  by (subst showNat.simps) simp

lemma replicate_num: "replicate (numeral k) x = x # replicate (pred_numeral k) x"
  by (simp add: numeral_eq_Suc)

lemmas eval_toFixed = toFixed_def Let_def floor_rat_numeral floor_rat_one showNat_small
  showNat_large digitChar_def replicate_num

lemma toFixed_0: "toFixed E (Finite 0) 6 = ''0.000000''"
  by (simp add: eval_toFixed)

lemma toFixed_1: "toFixed E (Finite 1) 6 = ''1.000000''"
  by (simp add: eval_toFixed)

lemma wellNamed3: "wellNamed skeleton3"
  by (simp add: wellNamed_def skeleton3_def node_def)

lemma obj3:
  "skeleton3 10 = node\<lparr>isBone := True, name := Some ''R'', ident := 10, children := [11]\<rparr>"
  "skeleton3 11 = node\<lparr>isBone := True, name := Some ''A'', ident := 11,
                   position := Vector3 (Finite 1) (Finite 0) (Finite 0),
                   parent := Some 10, children := [12]\<rparr>"
  "skeleton3 12 = node\<lparr>isBone := True, name := Some ''B'', ident := 12,
                   position := Vector3 (Finite 0) (Finite 1) (Finite 0),
                   parent := Some 11\<rparr>"
  by (simp_all add: skeleton3_def)

lemma kids3:
  "boneChildren skeleton3 10 = [11]" "boneChildren skeleton3 11 = [12]"
  "boneChildren skeleton3 12 = []"
  by (simp_all add: boneChildren_def obj3 node_def)

lemmas eval_block = jointHead_def jointLabel_def endSite_def ln_def
  repeat_Suc repeat_0 toFixed_0 toFixed_1 node_def

lemma block3: "buildBVHHierarchy E1 skeleton3 3 10 0 = Some block3"
  unfolding numeral_3_eq_3 by (simp add: build_Suc[OF wellNamed3] kids3 obj3 eval_block block3_def)

lemma root3: "rootBone skeleton3 [10, 11, 12] = Some 10"
  by (simp add: rootBone_def obj3 node_def)

lemma values3:
  "channelValues E1 skeleton3 10
   = [''0.000000'', ''0.000000'', ''0.000000'', ''0.000000'', ''0.000000'', ''0.000000'']"
  "channelValues E1 skeleton3 11
   = [''1.000000'', ''0.000000'', ''0.000000'', ''0.000000'', ''0.000000'', ''0.000000'']"
  "channelValues E1 skeleton3 12
   = [''0.000000'', ''1.000000'', ''0.000000'', ''0.000000'', ''0.000000'', ''0.000000'']"
  by (simp_all add: channelValues_def obj3 node_def E1_def toFixed_0 toFixed_1)

lemma motion3:
  "buildBVHMotion E1 skeleton3 [10, 11, 12] = ''0.000000 0.000000 0.000000 0.000000 0.000000 0.000000 1.000000 0.000000 0.000000 0.000000 0.000000 0.000000 0.000000 1.000000 0.000000 0.000000 0.000000 0.000000\<newline>''"
  by (simp add: motion_line values3)

lemma document3:
  "bvhString E1 skeleton3 3 [10, 11, 12]
   = Some (''HIERARCHY\<newline>'' @ block3 @ ''MOTION\<newline>Frames: 1\<newline>Frame Time: 0.033333\<newline>0.000000 0.000000 0.000000 0.000000 0.000000 0.000000 1.000000 0.000000 0.000000 0.000000 0.000000 0.000000 0.000000 1.000000 0.000000 0.000000 0.000000 0.000000\<newline>'')"
  by (simp add: bvhString_def root3 block3 motion3)

section \<open>The exported document\<close>

subsection \<open>The root keyword\<close>

lemma hd_splitOn_Cons: "x \<noteq> c \<Longrightarrow> hd (splitOn c (x # xs)) = x # hd (splitOn c xs)"
  using splitOn_ne[of c xs] by (cases "splitOn c xs") auto

lemma hd_splitOn_prefix: "c \<notin> set p \<Longrightarrow> prefix p (hd (splitOn c (p @ r)))"
  by (induction p) (auto simp: hd_splitOn_Cons simp del: splitOn.simps)

lemma bvhString_Some:
  assumes "bvhString E h fuel bones = Some doc"
  obtains bone hierarchy where "rootBone h bones = Some bone"
    and "buildBVHHierarchy E h fuel bone 0 = Some hierarchy"
    and "doc = ''HIERARCHY\<newline>'' @ hierarchy @ ''MOTION\<newline>'' @ ''Frames: 1\<newline>''
               @ ''Frame Time: 0.033333\<newline>'' @ buildBVHMotion E h bones"
  using assms by (auto simp: bvhString_def Let_def split: option.splits)

lemma rootBone_ne: "rootBone h bones = Some bone \<Longrightarrow> bones \<noteq> []"
  by (auto simp: rootBone_def)

lemma document_begins:
  assumes "bvhString E h fuel bones = Some doc"
  obtains r where "doc = ''HIERARCHY\<newline>JOINT '' @ r"
proof -
  from assms obtain bone hierarchy where
    hier: "buildBVHHierarchy E h fuel bone 0 = Some hierarchy" and
    doc: "doc = ''HIERARCHY\<newline>'' @ hierarchy @ ''MOTION\<newline>'' @ ''Frames: 1\<newline>''
               @ ''Frame Time: 0.033333\<newline>'' @ buildBVHMotion E h bones"
    by (rule bvhString_Some)
  from hier obtain n where n: "fuel = Suc n" by (cases fuel) auto
  from hier obtain t where t: "hierarchy
      = replace (''JOINT '' @ t) ''HIERARCHY\<newline>JOINT'' ''HIERARCHY\<newline>ROOT''"
    unfolding n build_raw by (auto simp: jointHead_def repeat_0 ln_def)
  have "hierarchy = ''JOINT '' @ replace t ''HIERARCHY\<newline>JOINT'' ''HIERARCHY\<newline>ROOT''"
    unfolding t by (rule replace_keep) simp_all
  then show ?thesis using that unfolding doc by simp
qed

lemma second_line:
  "CHR 0x0A \<notin> set a \<Longrightarrow> CHR 0x0A \<notin> set p \<Longrightarrow>
   prefix p (splitOn (CHR 0x0A) (a @ CHR 0x0A # p @ r) ! 1)"
  using splitOn_ne[of "CHR 0x0A" "p @ r"] hd_splitOn_prefix[of "CHR 0x0A" p r]
  by (simp add: splitOn_line hd_conv_nth)

text \<open>
  C1. The claim: the second line of the exported document begins with \<open>ROOT \<close>. The
  code: \<open>buildBVHHierarchy\<close> applies the rewrite of \<open>HIERARCHY\<newline>JOINT\<close> to the block it
  returns, which begins with \<open>JOINT \<close> and never with the header that \<open>exportToBVH\<close> puts
  in front of it afterwards; so the second line of every exported document begins with
  \<open>JOINT \<close> and not with \<open>ROOT \<close>.
\<close>

theorem second_line_begins_with_JOINT:
  assumes "bvhString E h fuel bones = Some doc"
  shows "prefix ''JOINT '' (splitOn (CHR 0x0A) doc ! 1)
         \<and> \<not> prefix ''ROOT '' (splitOn (CHR 0x0A) doc ! 1)"
proof -
  from assms obtain r where r: "doc = ''HIERARCHY\<newline>JOINT '' @ r"
    by (rule document_begins)
  have "prefix ''JOINT '' (splitOn (CHR 0x0A) (''HIERARCHY'' @ CHR 0x0A # ''JOINT '' @ r) ! 1)"
    by (rule second_line) simp_all
  then have p: "prefix ''JOINT '' (splitOn (CHR 0x0A) doc ! 1)"
    unfolding r by simp
  then obtain z where "splitOn (CHR 0x0A) doc ! 1 = ''JOINT '' @ z" by (auto elim: prefixE)
  then have "\<not> prefix ''ROOT '' (splitOn (CHR 0x0A) doc ! 1)" by simp
  with p show ?thesis by simp
qed

theorem second_line_begins_with_JOINT_witness:
  "bvhString E1 skeleton3 3 [10, 11, 12] \<noteq> None
   \<and> prefix ''JOINT '' (splitOn (CHR 0x0A) (the (bvhString E1 skeleton3 3 [10, 11, 12])) ! 1)
   \<and> \<not> prefix ''ROOT '' (splitOn (CHR 0x0A) (the (bvhString E1 skeleton3 3 [10, 11, 12])) ! 1)"
  using second_line_begins_with_JOINT[OF document3] unfolding document3 by simp

text \<open>
  Applied to the assembled document, the rewrite of \<open>fixRootBone\<close> does give the root
  keyword.
\<close>

lemma fixRootBone_gives_ROOT:
  assumes "bvhString E h fuel bones = Some doc"
  shows "prefix ''ROOT '' (splitOn (CHR 0x0A) (fixRootBone doc) ! 1)"
proof -
  from assms obtain r where r: "doc = ''HIERARCHY\<newline>JOINT '' @ r"
    by (rule document_begins)
  have "fixRootBone doc = ''HIERARCHY'' @ CHR 0x0A # ''ROOT '' @ r"
    unfolding r fixRootBone_def by simp
  moreover have
    "prefix ''ROOT '' (splitOn (CHR 0x0A) (''HIERARCHY'' @ CHR 0x0A # ''ROOT '' @ r) ! 1)"
    by (rule second_line) simp_all
  ultimately show ?thesis by simp
qed

subsection \<open>The empty bone set\<close>

text \<open>
  C5. With no bones, \<open>exportToBVH\<close> returns at once (whatever the fuel) and leaves the
  page as it was: no object URL, no link, no download.
\<close>

theorem export_of_no_bones_is_noop: "exportToBVH E h fuel [] st = Some st"
  by (simp add: exportToBVH_def)

subsection \<open>The choice of the root\<close>

text \<open>
  C6. For a non-empty bone set, the root that \<open>exportToBVH\<close> serializes is the first bone,
  in bone-set order, whose parent is absent or no bone; if the set has no such bone, it
  is the first bone of the set.
\<close>

theorem root_is_first_bone_without_bone_parent:
  assumes "bones \<noteq> []"
  shows "(\<exists>i < length bones. rootBone h bones = Some (bones ! i) \<and> noBoneParent h (bones ! i)
            \<and> (\<forall>j < i. \<not> noBoneParent h (bones ! j)))
         \<or> ((\<forall>b \<in> set bones. \<not> noBoneParent h b) \<and> rootBone h bones = Some (bones ! 0))"
proof (cases "find (noBoneParent h) bones")
  case None
  then have "\<forall>b \<in> set bones. \<not> noBoneParent h b" by (auto simp: find_None_iff)
  moreover have "rootBone h bones = Some (bones ! 0)"
    using None assms unfolding rootBone_def noBoneParent_def[abs_def]
    by (cases bones) auto
  ultimately show ?thesis by blast
next
  case (Some b)
  then obtain i where "i < length bones" "noBoneParent h (bones ! i)" "b = bones ! i"
    "\<forall>j < i. \<not> noBoneParent h (bones ! j)"
    by (auto simp: find_Some_iff)
  moreover have "rootBone h bones = Some b"
    using Some unfolding rootBone_def noBoneParent_def[abs_def] by simp
  ultimately show ?thesis by blast
qed

theorem root_is_first_bone_without_bone_parent_witness:
  "[11, 10, 12] \<noteq> ([] :: ref list) \<and> rootBone skeleton3 [11, 10, 12] = Some 10
   \<and> noBoneParent skeleton3 10 \<and> \<not> noBoneParent skeleton3 11"
  using root_is_first_bone_without_bone_parent[of "[11, 10, 12]" skeleton3]
  by (simp add: rootBone_def noBoneParent_def obj3 node_def)


subsection \<open>The structure of the document\<close>

lemma export_builds_text:
  assumes "exportToBVH E h fuel bones st = Some st'" and "bones \<noteq> []"
  shows "bvhString E h fuel bones \<noteq> None"
proof
  assume "bvhString E h fuel bones = None"
  then have "exportToBVH E h fuel bones st = None"
    using assms(2) by (simp add: exportToBVH_def)
  with assms(1) show False by simp
qed

lemma export_result:
  assumes "exportToBVH E h fuel bones st = Some st'" and "bones \<noteq> []"
    and "bvhString E h fuel bones = Some doc"
  shows "st' = revokeObjectURL (nextURL st)
           (removeChild \<lparr>href = nextURL st, download = ''animation.bvh''\<rparr>
             (click \<lparr>href = nextURL st, download = ''animation.bvh''\<rparr>
               (appendChild \<lparr>href = nextURL st, download = ''animation.bvh''\<rparr>
                 (snd (createObjectURL \<lparr>blobParts = [doc], blobType = ''text/plain''\<rparr> st)))))"
proof -
  have "exportToBVH E h fuel bones st = Some (revokeObjectURL (nextURL st)
           (removeChild \<lparr>href = nextURL st, download = ''animation.bvh''\<rparr>
             (click \<lparr>href = nextURL st, download = ''animation.bvh''\<rparr>
               (appendChild \<lparr>href = nextURL st, download = ''animation.bvh''\<rparr>
                 (snd (createObjectURL \<lparr>blobParts = [doc], blobType = ''text/plain''\<rparr> st))))))"
    unfolding exportToBVH_def Let_def assms(3) createObjectURL_def
    using assms(2) by simp
  with assms(1) show ?thesis by simp
qed

lemma export_download:
  assumes "exportToBVH E h fuel bones st = Some st'" and "bones \<noteq> []"
    and "bvhString E h fuel bones = Some doc"
  shows "downloads st'
         = downloads st @ [(''animation.bvh'', \<lparr>blobParts = [doc], blobType = ''text/plain''\<rparr>)]"
  unfolding export_result[OF assms]
  by (simp add: createObjectURL_def appendChild_def click_def removeChild_def revokeObjectURL_def)

text \<open>
  C4. For a non-empty bone set, the export offers one file, \<open>animation.bvh\<close>, whose text
  is, line by line: \<open>HIERARCHY\<close>, the lines of the hierarchy block of the selected root,
  \<open>MOTION\<close>, \<open>Frames: 1\<close>, \<open>Frame Time: 0.033333\<close> and the motion line; the text ends
  with the line break of the motion line, and nothing else is in it.
\<close>

theorem export_document_structure:
  assumes "exportToBVH E h fuel bones st = Some st'" and "bones \<noteq> []"
  shows "\<exists>bone hierarchy motion doc.
           rootBone h bones = Some bone
         \<and> buildBVHHierarchy E h fuel bone 0 = Some hierarchy
         \<and> buildBVHMotion E h bones = motion @ ''\<newline>''
         \<and> CHR 0x0A \<notin> set motion
         \<and> downloads st'
             = downloads st @ [(''animation.bvh'', \<lparr>blobParts = [doc], blobType = ''text/plain''\<rparr>)]
         \<and> splitOn (CHR 0x0A) doc
             = ''HIERARCHY'' # linesOf hierarchy
               @ [''MOTION'', ''Frames: 1'', ''Frame Time: 0.033333'', motion, '''']"
proof -
  from export_builds_text[OF assms] obtain doc where d: "bvhString E h fuel bones = Some doc" by blast
  note dl = export_download[OF assms d]
  from d obtain bone hierarchy where
    root: "rootBone h bones = Some bone" and
    hier: "buildBVHHierarchy E h fuel bone 0 = Some hierarchy" and
    doc: "doc = ''HIERARCHY\<newline>'' @ hierarchy @ ''MOTION\<newline>'' @ ''Frames: 1\<newline>''
               @ ''Frame Time: 0.033333\<newline>'' @ buildBVHMotion E h bones"
    by (rule bvhString_Some)
  let ?motion = "joinSp (concat (map (channelValues E h) bones))"
  have m: "buildBVHMotion E h bones = ?motion @ ''\<newline>''"
    by (rule motion_line[OF assms(2)])
  have mnl: "CHR 0x0A \<notin> set ?motion"
    using channelValues_tokens token_no_nl by (intro joinSp_no_nl) fastforce
  have "splitOn (CHR 0x0A) (?motion @ ''\<newline>'') = [?motion, '''']"
    using splitOn_line[OF mnl, of "[]"] by simp
  then have tail: "splitOn (CHR 0x0A) (''MOTION\<newline>'' @ ''Frames: 1\<newline>''
               @ ''Frame Time: 0.033333\<newline>'' @ ?motion @ ''\<newline>'')
        = [''MOTION'', ''Frames: 1'', ''Frame Time: 0.033333'', ?motion, '''']"
    by simp
  have "splitOn (CHR 0x0A) doc
        = ''HIERARCHY'' # splitOn (CHR 0x0A) (hierarchy @ ''MOTION\<newline>'' @ ''Frames: 1\<newline>''
               @ ''Frame Time: 0.033333\<newline>'' @ ?motion @ ''\<newline>'')"
    unfolding doc m by simp
  also have "\<dots> = ''HIERARCHY'' # linesOf hierarchy
               @ [''MOTION'', ''Frames: 1'', ''Frame Time: 0.033333'', ?motion, '''']"
    using build_last[OF hier] tail by (subst splitOn_append) simp_all
  finally show ?thesis using root hier m mnl dl by blast
qed
lemma export3:
  "exportToBVH E1 skeleton3 3 [10, 11, 12] emptyPage
   = Some (emptyPage\<lparr>nextURL := 1, downloads := [(''animation.bvh'',
       \<lparr>blobParts = [the (bvhString E1 skeleton3 3 [10, 11, 12])], blobType = ''text/plain''\<rparr>)]\<rparr>)"
proof -
  obtain doc where d: "bvhString E1 skeleton3 3 [10, 11, 12] = Some doc"
    using document3 by simp
  show ?thesis
    unfolding d
    by (simp add: exportToBVH_def d Let_def createObjectURL_def appendChild_def click_def
          removeChild_def revokeObjectURL_def emptyPage_def)
qed

theorem export_document_structure_witness:
  "exportToBVH E1 skeleton3 3 [10, 11, 12] emptyPage \<noteq> None
   \<and> [10, 11, 12] \<noteq> ([] :: ref list)
   \<and> (\<exists>hierarchy motion.
         buildBVHHierarchy E1 skeleton3 3 10 0 = Some hierarchy
       \<and> splitOn (CHR 0x0A) (the (bvhString E1 skeleton3 3 [10, 11, 12]))
           = ''HIERARCHY'' # linesOf hierarchy
             @ [''MOTION'', ''Frames: 1'', ''Frame Time: 0.033333'', motion, ''''])"
proof -
  have ne: "[10, 11, 12] \<noteq> ([] :: ref list)" by simp
  from export_document_structure[OF export3 ne] obtain bone hierarchy motion doc where
    1: "rootBone skeleton3 [10, 11, 12] = Some bone"
    and 2: "buildBVHHierarchy E1 skeleton3 3 bone 0 = Some hierarchy"
    and 3: "downloads (emptyPage\<lparr>nextURL := 1, downloads := [(''animation.bvh'',
       \<lparr>blobParts = [the (bvhString E1 skeleton3 3 [10, 11, 12])], blobType = ''text/plain''\<rparr>)]\<rparr>)
             = downloads emptyPage
               @ [(''animation.bvh'', \<lparr>blobParts = [doc], blobType = ''text/plain''\<rparr>)]"
    and 4: "splitOn (CHR 0x0A) doc
             = ''HIERARCHY'' # linesOf hierarchy
               @ [''MOTION'', ''Frames: 1'', ''Frame Time: 0.033333'', motion, '''']"
    by blast
  from 1 have b: "bone = 10" unfolding root3 by simp
  from 3 have d: "doc = the (bvhString E1 skeleton3 3 [10, 11, 12])"
    by (simp add: emptyPage_def)
  from 2 4 show ?thesis unfolding b d using ne export3 by blast
qed



subsection \<open>Termination\<close>

lemma common_fuel:
  assumes "\<forall>c \<in> set cs. \<exists>n s. buildBVHHierarchy E h n c l = Some s"
  shows "\<exists>N. \<forall>c \<in> set cs. \<exists>s. buildBVHHierarchy E h N c l = Some s"
  using assms
proof (induction cs)
  case Nil
  show ?case by simp
next
  case (Cons c cs)
  then obtain N where N: "\<forall>c \<in> set cs. \<exists>s. buildBVHHierarchy E h N c l = Some s" by auto
  from Cons.prems obtain n s where n: "buildBVHHierarchy E h n c l = Some s" by auto
  have "buildBVHHierarchy E h (max n N) c l = Some s"
    by (rule build_mono_le[OF n]) simp
  moreover have "\<exists>s. buildBVHHierarchy E h (max n N) d l = Some s" if "d \<in> set cs" for d
  proof -
    from N that obtain t where "buildBVHHierarchy E h N d l = Some t" by blast
    then have "buildBVHHierarchy E h (max n N) d l = Some t"
      by (rule build_mono_le) simp
    then show ?thesis ..
  qed
  ultimately have "\<forall>d \<in> set (c # cs). \<exists>s. buildBVHHierarchy E h (max n N) d l = Some s"
    by simp
  then show ?case by blast
qed

lemma build_total:
  assumes "wf (boneLinks h)"
  shows "\<exists>n s. buildBVHHierarchy E h n b l = Some s"
  using assms
proof (induction b arbitrary: l rule: wf_induct_rule)
  case (less b)
  have "\<exists>n s. buildBVHHierarchy E h n c (Suc l) = Some s" if "c \<in> set (boneChildren h b)" for c
  proof -
    from that have "(c, b) \<in> boneLinks h" by (simp add: boneLinks_def)
    then show ?thesis by (rule less.IH)
  qed
  then have "\<forall>c \<in> set (boneChildren h b). \<exists>n s. buildBVHHierarchy E h n c (Suc l) = Some s"
    by blast
  from common_fuel[OF this] obtain N where
    "\<forall>c \<in> set (boneChildren h b). \<exists>s. buildBVHHierarchy E h N c (Suc l) = Some s" ..
  then have "those (map (\<lambda>c. buildBVHHierarchy E h N c (Suc l)) (boneChildren h b)) \<noteq> None"
    unfolding those_map_None by auto
  then have "\<exists>s. buildBVHHierarchy E h (Suc N) b l = Some s"
    unfolding build_raw by auto
  then show ?case by blast
qed

lemma build_stable:
  assumes "wf (boneLinks h)"
  shows "\<exists>fuel s. \<forall>fuel' \<ge> fuel. buildBVHHierarchy E h fuel' b l = Some s"
proof -
  from build_total[OF assms] obtain n s where n: "buildBVHHierarchy E h n b l = Some s"
    by blast
  have "\<forall>fuel' \<ge> n. buildBVHHierarchy E h fuel' b l = Some s"
    using build_mono_le[OF n] by blast
  then show ?thesis by blast
qed

text \<open>
  C8. When the bone-typed child links of the store are finitely many and form no cycle,
  the hierarchy serialization of any bone returns a string, and so does the export of
  any bone set: some amount of fuel suffices, and every larger amount gives the same
  result.
\<close>

theorem export_terminates_on_acyclic_skeleton:
  assumes "finite (boneLinks h)" and "acyclic (boneLinks h)"
  shows "(\<exists>fuel s. \<forall>fuel' \<ge> fuel. buildBVHHierarchy E h fuel' bone level = Some s)
         \<and> (\<exists>fuel st'. \<forall>fuel' \<ge> fuel. exportToBVH E h fuel' bones st = Some st')"
proof -
  have wf: "wf (boneLinks h)" using assms by (rule finite_acyclic_wf)
  have 2: "\<exists>fuel st'. \<forall>fuel' \<ge> fuel. exportToBVH E h fuel' bones st = Some st'"
  proof (cases "rootBone h bones")
    case None
    then have "bones = []" by (auto simp: rootBone_def split: option.splits list.splits)
    then show ?thesis by (simp add: exportToBVH_def)
  next
    case (Some r)
    from build_stable[OF wf, of E r 0] obtain n s where
      n: "\<forall>fuel' \<ge> n. buildBVHHierarchy E h fuel' r 0 = Some s" by blast
    have b: "bvhString E h fuel' bones = bvhString E h n bones" if "n \<le> fuel'" for fuel'
      using n that by (simp add: bvhString_def Some)
    have e: "exportToBVH E h fuel' bones st = exportToBVH E h n bones st" if "n \<le> fuel'" for fuel'
      using b[OF that] by (simp add: exportToBVH_def)
    have ne: "bones \<noteq> []" using Some by (rule rootBone_ne)
    obtain doc where doc: "bvhString E h n bones = Some doc"
      using n by (simp add: bvhString_def Some Let_def)
    have "\<exists>st'. exportToBVH E h n bones st = Some st'"
      unfolding exportToBVH_def Let_def doc createObjectURL_def using ne by simp
    then obtain st' where "exportToBVH E h n bones st = Some st'" ..
    with e have "\<forall>fuel' \<ge> n. exportToBVH E h fuel' bones st = Some st'" by simp
    then show ?thesis by blast
  qed
  from build_stable[OF wf, of E bone level] 2 show ?thesis by blast
qed
lemma links3: "boneLinks skeleton3 = {(11, 10), (12, 11)}"
proof -
  have "boneChildren skeleton3 b = (if b = 10 then [11] else if b = 11 then [12] else [])" for b
    by (simp add: boneChildren_def skeleton3_def node_def)
  then show ?thesis
    unfolding boneLinks_def by (auto split: if_splits)
qed

lemma acyclic3: "acyclic (boneLinks skeleton3)"
  unfolding links3
  by (rule acyclic_subset[OF wf_acyclic[OF wf_measure[of "\<lambda>r. 100 - r"]]]) auto

theorem export_terminates_on_acyclic_skeleton_witness:
  "finite (boneLinks skeleton3) \<and> acyclic (boneLinks skeleton3)
   \<and> (\<exists>fuel s. buildBVHHierarchy E1 skeleton3 fuel 10 0 = Some s)
   \<and> (\<exists>fuel st'. exportToBVH E1 skeleton3 fuel [10, 11, 12] emptyPage = Some st')"
proof -
  have f: "finite (boneLinks skeleton3)" unfolding links3 by simp
  from export_terminates_on_acyclic_skeleton[OF f acyclic3, of E1 10 0 "[10, 11, 12]" emptyPage]
  show ?thesis using f acyclic3 by blast
qed
subsection \<open>Joint blocks\<close>

lemma repeat_Suc_right: "repeat s (Suc n) = repeat s n @ s"
  by (induction n) (simp_all add: repeat_0 repeat_Suc)

lemma lines_form:
  "wellNamed h \<Longrightarrow> buildBVHHierarchy E h n b m = Some t \<Longrightarrow>
   \<forall>x \<in> set (linesOf t). \<exists>c r. x = repeat ''  '' m @ c # r \<and> c \<noteq> CHR ''E''"
proof (induction n arbitrary: b m t)
  case 0
  then show ?case by simp
next
  case (Suc n)
  from lines_block[OF Suc.prems] obtain bs where
    a2: "list_all2 (\<lambda>c y. buildBVHHierarchy E h n c (Suc m) = Some y) (boneChildren h b) bs"
    and L: "linesOf t = jointHead E h b m
                 @ (if boneChildren h b = [] then endSite m else concat (map linesOf bs))
                 @ [repeat ''  '' m @ ''}'']"
    by blast
  have head: "\<forall>x \<in> set (jointHead E h b m). \<exists>c r. x = repeat ''  '' m @ c # r \<and> c \<noteq> CHR ''E''"
    by (simp add: jointHead_def)
  have es: "\<forall>x \<in> set (endSite m). \<exists>c r. x = repeat ''  '' m @ c # r \<and> c \<noteq> CHR ''E''"
    by (simp add: endSite_def)
  have kids: "\<exists>c r. x = repeat ''  '' m @ c # r \<and> c \<noteq> CHR ''E''"
    if "y \<in> set bs" "x \<in> set (linesOf y)" for x y
  proof -
    from all2_set[OF a2 that(1)] obtain k where
      "buildBVHHierarchy E h n k (Suc m) = Some y" by blast
    from Suc.IH[OF Suc.prems(1) this] that(2) obtain c r where
      "x = repeat ''  '' (Suc m) @ c # r" by blast
    then have "x = repeat ''  '' m @ CHR '' '' # (CHR '' '' # c # r)"
      by (simp add: repeat_Suc_right)
    then show ?thesis by blast
  qed
  have cl: "\<exists>c r. repeat ''  '' m @ ''}'' = repeat ''  '' m @ c # r \<and> c \<noteq> CHR ''E''"
    by simp
  show ?case
    unfolding L using head es kids cl by (auto split: if_splits)
qed

lemma wellNamed4: "wellNamed skeleton4"
  using wellNamed3 by (simp add: wellNamed_def skeleton4_def node_def)

lemma obj4:
  "skeleton4 10 = skeleton3 10" "skeleton4 11 = skeleton3 11" "skeleton4 12 = skeleton3 12"
  "skeleton4 13 = node\<lparr>isBone := True, name := None, ident := 13,
                       position := Vector3 (Finite 1000000000000000000000) (Finite 0)
                                     (Finite (- (5 / 2)))\<rparr>"
  by (simp_all add: skeleton4_def)

lemma kids4:
  "boneChildren skeleton4 10 = [11]" "boneChildren skeleton4 11 = [12]"
  "boneChildren skeleton4 12 = []" "boneChildren skeleton4 13 = []"
  by (simp_all add: boneChildren_def obj4 obj3 node_def)

lemma toFixed_huge: "toFixed E1 (Finite 1000000000000000000000) 6 = ''1e+21''"
  by (simp add: eval_toFixed numberToString_def E1_def)

lemma toFixed_neg: "toFixed E (Finite (- (5 / 2))) 6 = ''-2.500000''"
  by (simp add: eval_toFixed)

lemma stray4:
  "buildBVHHierarchy E1 skeleton4 3 13 0 = Some ''JOINT Bone_13\<newline>{\<newline>  OFFSET 1e+21 0.000000 -2.500000\<newline>  CHANNELS 6 Xposition Yposition Zposition Xrotation Yrotation Zrotation\<newline>  End Site\<newline>  {\<newline>    OFFSET 0.0 0.0 0.0\<newline>  }\<newline>}\<newline>''"
  unfolding numeral_3_eq_3
  by (simp add: build_Suc[OF wellNamed4] kids4 obj4 eval_block showNat_small showNat_large
        digitChar_def toFixed_huge toFixed_neg)

lemma block4: "buildBVHHierarchy E1 skeleton4 3 10 0 = Some block3"
  unfolding numeral_3_eq_3
  by (simp add: build_Suc[OF wellNamed4] kids4 obj4 obj3 eval_block block3_def)

lemma pattern_inside_line:
  assumes "prefix (p @ c # q) (a @ c # b)" and "c \<notin> set p" and "c \<notin> set q"
    and "q \<noteq> []" and "b = [] \<or> hd b \<noteq> hd q"
  shows "prefix (p @ c # q) a"
proof -
  from assms(1) obtain t where "a @ c # b = (p @ c # q) @ t"
    by (auto elim: prefixE)
  then consider us where "a = (p @ c # q) @ us"
    | us where "a @ us = p @ c # q" "c # b = us @ t"
    unfolding append_eq_append_conv2 by blast
  then show ?thesis
  proof cases
    case 1
    then show ?thesis by simp
  next
    case 2
    show ?thesis
    proof (cases us)
      case Nil
      with 2(1) show ?thesis by simp
    next
      case (Cons u us')
      with 2(2) have u: "u = c" and b: "b = us' @ t" by simp_all
      from 2(1) have "a @ c # us' = p @ c # q" unfolding Cons u .
      then consider vs where "a = p @ vs" "vs @ c # us' = c # q"
        | vs where "a @ vs = p" "c # us' = vs @ c # q"
        unfolding append_eq_append_conv2 by blast
      then have "us' = q"
      proof cases
        case 1
        show ?thesis
        proof (cases vs)
          case Nil
          with 1(2) show ?thesis by simp
        next
          case (Cons v vs')
          with 1(2) have "vs' @ c # us' = q" by simp
          then have "c \<in> set q" by auto
          with assms(3) show ?thesis by simp
        qed
      next
        case 2
        show ?thesis
        proof (cases vs)
          case Nil
          with 2(2) show ?thesis by simp
        next
          case (Cons v vs')
          with 2(2) have "v = c" by simp
          with Cons 2(1) have "c \<in> set p" by auto
          with assms(2) show ?thesis by simp
        qed
      qed
      with b assms(4,5) show ?thesis by simp
    qed
  qed
qed

lemma pattern_inside:
  assumes "prefix ''HIERARCHY\<newline>JOINT'' (a @ CHR 0x0A # b)" and "b = [] \<or> hd b \<noteq> CHR ''J''"
  shows "prefix ''HIERARCHY\<newline>JOINT'' a"
proof -
  have e: "''HIERARCHY\<newline>JOINT'' = ''HIERARCHY'' @ CHR 0x0A # ''JOINT''" by simp
  have "prefix (''HIERARCHY'' @ CHR 0x0A # ''JOINT'') a"
    by (rule pattern_inside_line[OF assms(1)[unfolded e]]) (use assms(2) in simp_all)
  then show ?thesis unfolding e .
qed

lemma replace_inside:
  assumes "\<And>w. prefix pat (w @ b) \<Longrightarrow> prefix pat w" and "pat \<noteq> []"
  shows "replace (a @ b) pat rep
         = replace a pat rep @ (if sublist pat a then b else replace b pat rep)"
proof (induction a)
  case Nil
  from assms(2) show ?case by simp
next
  case (Cons x a)
  show ?case
  proof (cases "prefix pat ((x # a) @ b)")
    case True
    from assms(1)[OF True] have p: "prefix pat (x # a)" .
    then have l: "length pat \<le> length (x # a)" by (rule prefix_length_le)
    from p have s: "sublist pat (x # a)" by (rule prefix_imp_sublist)
    have "replace ((x # a) @ b) pat rep = rep @ drop (length pat) ((x # a) @ b)"
      using True by simp
    also have "\<dots> = rep @ drop (length pat) (x # a) @ b"
      using l drop_append[of "length pat" "x # a" b] by simp
    finally have 1: "replace ((x # a) @ b) pat rep = rep @ drop (length pat) (x # a) @ b" .
    have 2: "replace (x # a) pat rep = rep @ drop (length pat) (x # a)"
      using p by simp
    show ?thesis unfolding 1 2 using s by simp
  next
    case False
    have np: "\<not> prefix pat (x # a)"
    proof
      assume "prefix pat (x # a)"
      then have "prefix pat ((x # a) @ b)" by (rule prefix_prefix)
      with False show False by simp
    qed
    then have s: "sublist pat (x # a) = sublist pat a"
      by (simp add: sublist_Cons_right)
    from False have "replace ((x # a) @ b) pat rep = x # replace (a @ b) pat rep" by simp
    moreover from np have "replace (x # a) pat rep = x # replace a pat rep" by simp
    ultimately show ?thesis unfolding s Cons.IH by simp
  qed
qed

lemma replace_name_line:
  assumes "b = [] \<or> hd b \<noteq> CHR ''J''"
  shows "replace (a @ CHR 0x0A # b) ''HIERARCHY\<newline>JOINT'' rep
         = replace a ''HIERARCHY\<newline>JOINT'' rep
           @ (if sublist ''HIERARCHY\<newline>JOINT'' a then CHR 0x0A # b
              else replace (CHR 0x0A # b) ''HIERARCHY\<newline>JOINT'' rep)"
proof (rule replace_inside)
  show "prefix ''HIERARCHY\<newline>JOINT'' w" if "prefix ''HIERARCHY\<newline>JOINT'' (w @ CHR 0x0A # b)" for w
    using that assms by (rule pattern_inside)
  show "''HIERARCHY\<newline>JOINT'' \<noteq> []" by simp
qed

lemma replace_one_line:
  "CHR 0x0A \<notin> set s \<Longrightarrow> replace s ''HIERARCHY\<newline>JOINT'' rep = s"
proof (induction s)
  case Nil
  show ?case by simp
next
  case (Cons c s)
  have "\<not> prefix ''HIERARCHY\<newline>JOINT'' (c # s)"
  proof
    assume "prefix ''HIERARCHY\<newline>JOINT'' (c # s)"
    from set_mono_prefix[OF this] Cons.prems show False by auto
  qed
  then have "replace (c # s) ''HIERARCHY\<newline>JOINT'' rep
             = c # replace s ''HIERARCHY\<newline>JOINT'' rep"
    by (simp only: replace.simps if_False)
  with Cons show ?case by simp
qed

lemma replace_absent:
  "\<not> sublist ''HIERARCHY\<newline>JOINT'' s \<Longrightarrow> replace s ''HIERARCHY\<newline>JOINT'' rep = s"
proof (induction s)
  case Nil
  show ?case by simp
next
  case (Cons c s)
  from Cons.prems have np: "\<not> prefix ''HIERARCHY\<newline>JOINT'' (c # s)"
    and ns: "\<not> sublist ''HIERARCHY\<newline>JOINT'' s"
    by (simp_all only: sublist_Cons_right de_Morgan_disj simp_thms)
  from np have "replace (c # s) ''HIERARCHY\<newline>JOINT'' rep
                = c # replace s ''HIERARCHY\<newline>JOINT'' rep"
    by (simp only: replace.simps if_False)
  with Cons.IH[OF ns] show ?case by simp
qed

lemma header_rewritten:
  assumes "buildBVHHierarchy E h fuel bone level = Some s"
  shows "prefix (repeat ''  '' level @ ''JOINT ''
                 @ replace (jointLabel h bone) ''HIERARCHY\<newline>JOINT'' ''HIERARCHY\<newline>ROOT''
                 @ ''\<newline>'') s"
proof -
  from assms(1) obtain k where k: "fuel = Suc k" by (cases fuel) auto
  let ?a = "repeat ''  '' level @ ''JOINT ''"
  from assms(1) obtain r where
    s: "s = replace (?a @ jointLabel h bone @ CHR 0x0A # repeat ''  '' level @ CHR ''{'' # r)
              ''HIERARCHY\<newline>JOINT'' ''HIERARCHY\<newline>ROOT''"
    unfolding k build_raw by (auto simp: jointHead_def ln_def)
  have a: "hd ''HIERARCHY\<newline>JOINT'' \<notin> set ?a" using set_indent[of level] by auto
  have b: "repeat ''  '' level @ CHR ''{'' # r = []
           \<or> hd (repeat ''  '' level @ CHR ''{'' # r) \<noteq> CHR ''J''"
    by (simp add: hd_indent)
  have "s = ?a @ replace (jointLabel h bone @ CHR 0x0A # repeat ''  '' level @ CHR ''{'' # r)
              ''HIERARCHY\<newline>JOINT'' ''HIERARCHY\<newline>ROOT''"
    unfolding s by (rule replace_keep[OF _ a]) simp
  then show ?thesis
    unfolding replace_name_line[OF b] by (simp split: if_splits)
qed

text \<open>
  C9. The block that \<open>buildBVHHierarchy\<close> returns for a bone begins with the joint
  header. The header is \<open>JOINT Bone_<id>\<close> when the bone has no name and also when its
  name is the empty string. For a non-empty name it is \<open>JOINT\<close> followed by the name
  after the root rewrite, which \<open>buildBVHHierarchy\<close> applies to the block it returns:
  the first \<open>HIERARCHY<line break>JOINT\<close> in the name, if there is one, reads
  \<open>HIERARCHY<line break>ROOT\<close> in the header, so that the header does not carry the
  bone's own name; a name without that text is used as it is. The bone named
  \<open>HIERARCHY<line break>JOINT\<close> gets the header \<open>JOINT HIERARCHY<line break>ROOT\<close>.
\<close>

theorem own_name_is_rewritten_in_joint_header:
  assumes "buildBVHHierarchy E h fuel bone level = Some s"
  shows "(name (h bone) = None \<or> name (h bone) = Some [] \<longrightarrow>
            prefix (repeat ''  '' level @ ''JOINT Bone_'' @ showNat (ident (h bone))
                    @ ''\<newline>'') s)
         \<and> (\<forall>n. name (h bone) = Some n \<and> n \<noteq> [] \<longrightarrow>
              prefix (repeat ''  '' level @ ''JOINT ''
                      @ replace n ''HIERARCHY\<newline>JOINT'' ''HIERARCHY\<newline>ROOT''
                      @ ''\<newline>'') s)
         \<and> (\<forall>n. name (h bone) = Some n \<and> n \<noteq> [] \<and> \<not> sublist ''HIERARCHY\<newline>JOINT'' n \<longrightarrow>
              prefix (repeat ''  '' level @ ''JOINT '' @ n @ ''\<newline>'') s)"
proof -
  have d: "CHR 0x0A \<notin> set (''Bone_'' @ showNat (ident (h bone)))"
    using token_no_nl[OF token_showNat, of "ident (h bone)"] by simp
  note r = header_rewritten[OF assms]
  have 1: "prefix (repeat ''  '' level @ ''JOINT Bone_'' @ showNat (ident (h bone))
                   @ ''\<newline>'') s"
    if "name (h bone) = None \<or> name (h bone) = Some []"
  proof -
    from that have l: "jointLabel h bone = ''Bone_'' @ showNat (ident (h bone))"
      by (auto simp: jointLabel_def)
    from r show ?thesis unfolding l replace_one_line[OF d] by simp
  qed
  have 2: "prefix (repeat ''  '' level @ ''JOINT ''
                   @ replace n ''HIERARCHY\<newline>JOINT'' ''HIERARCHY\<newline>ROOT'' @ ''\<newline>'') s"
    if "name (h bone) = Some n" "n \<noteq> []" for n
  proof -
    from that have l: "jointLabel h bone = n" by (simp add: jointLabel_def)
    from r show ?thesis unfolding l .
  qed
  have 3: "prefix (repeat ''  '' level @ ''JOINT '' @ n @ ''\<newline>'') s"
    if "name (h bone) = Some n" "n \<noteq> []" "\<not> sublist ''HIERARCHY\<newline>JOINT'' n" for n
    using 2[OF that(1,2)] unfolding replace_absent[OF that(3)] .
  from 1 2 3 show ?thesis by blast
qed

lemma kidsH: "boneChildren skeletonH 20 = []" "boneChildren skeletonH 21 = []"
  by (simp_all add: boneChildren_def skeletonH_def node_def)

lemma blockH:
  "buildBVHHierarchy E1 skeletonH 3 20 0 \<noteq> None" "buildBVHHierarchy E1 skeletonH 3 21 0 \<noteq> None"
  unfolding numeral_3_eq_3 by (simp_all add: build_raw kidsH)

theorem own_name_is_rewritten_in_joint_header_witness:
  "buildBVHHierarchy E1 skeletonH 3 20 0 \<noteq> None
   \<and> name (skeletonH 20) = Some ''HIERARCHY\<newline>JOINT''
   \<and> prefix ''JOINT HIERARCHY\<newline>ROOT\<newline>'' (the (buildBVHHierarchy E1 skeletonH 3 20 0))
   \<and> \<not> prefix ''JOINT HIERARCHY\<newline>JOINT\<newline>'' (the (buildBVHHierarchy E1 skeletonH 3 20 0))
   \<and> buildBVHHierarchy E1 skeletonH 3 21 0 \<noteq> None
   \<and> name (skeletonH 21) = Some []
   \<and> prefix ''JOINT Bone_21\<newline>'' (the (buildBVHHierarchy E1 skeletonH 3 21 0))
   \<and> buildBVHHierarchy E1 skeleton4 3 13 0 \<noteq> None
   \<and> name (skeleton4 13) = None
   \<and> prefix ''JOINT Bone_13\<newline>'' (the (buildBVHHierarchy E1 skeleton4 3 13 0))
   \<and> buildBVHHierarchy E1 skeleton4 3 10 0 \<noteq> None
   \<and> name (skeleton4 10) = Some ''R''
   \<and> prefix ''JOINT R\<newline>'' (the (buildBVHHierarchy E1 skeleton4 3 10 0))"
proof -
  obtain u where u: "buildBVHHierarchy E1 skeletonH 3 20 0 = Some u" using blockH(1) by blast
  obtain v where v: "buildBVHHierarchy E1 skeletonH 3 21 0 = Some v" using blockH(2) by blast
  obtain s where s: "buildBVHHierarchy E1 skeleton4 3 13 0 = Some s" using stray4 by simp
  obtain t where t: "buildBVHHierarchy E1 skeleton4 3 10 0 = Some t" using block4 by simp
  have n: "name (skeletonH 20) = Some ''HIERARCHY\<newline>JOINT''" "name (skeletonH 21) = Some []"
    "name (skeleton4 13) = None" "name (skeleton4 10) = Some ''R''"
    by (simp_all add: skeletonH_def obj4 obj3 node_def)
  have i: "showNat (ident (skeletonH 21)) = ''21''" "showNat (ident (skeleton4 13)) = ''13''"
    by (simp_all add: skeletonH_def obj4 node_def showNat_small showNat_large digitChar_def)
  from own_name_is_rewritten_in_joint_header[OF u] n(1)
  have 1: "prefix ''JOINT HIERARCHY\<newline>ROOT\<newline>'' u"
    by (simp add: repeat_0)
  have 2: "\<not> prefix ''JOINT HIERARCHY\<newline>JOINT\<newline>'' u"
  proof
    assume "prefix ''JOINT HIERARCHY\<newline>JOINT\<newline>'' u"
    from prefix_same_cases[OF this 1] show False by simp
  qed
  from own_name_is_rewritten_in_joint_header[OF v] n(2) i(1)
  have 3: "prefix ''JOINT Bone_21\<newline>'' v"
    by (simp add: repeat_0)
  from own_name_is_rewritten_in_joint_header[OF s] n(3) i(2)
  have 4: "prefix ''JOINT Bone_13\<newline>'' s"
    by (simp add: repeat_0)
  from own_name_is_rewritten_in_joint_header[OF t] n(4) have 5: "prefix ''JOINT R\<newline>'' t"
    by (simp add: repeat_0)
  show ?thesis unfolding u v s t option.sel using n 1 2 3 4 5 by simp
qed

lemma all2_map: "list_all2 (\<lambda>x y. f x = Some y) xs ys \<Longrightarrow> map f xs = map Some ys"
  by (induction rule: list_all2_induct) auto

lemma head_no_EndSite:
  "count_list (jointHead E h b l) (repeat ''  '' l @ ''  End Site'') = 0"
  by (simp add: jointHead_def)

text \<open>
  C7. The block of a joint (names hold no line break) is its four head lines, then
  \<^item> for a bone without bone-typed children: the End Site sub-block with the offset line
    \<open>OFFSET 0.0 0.0 0.0\<close>, once, and the closing brace;
  \<^item> for a bone with bone-typed children: the blocks of these children, one level
    deeper and in the children's order, and the closing brace, with no End Site line of
    the joint's own.
\<close>

theorem joint_block_ends_in_End_Site_or_children:
  assumes "wellNamed h" and "buildBVHHierarchy E h (Suc fuel) bone level = Some s"
  shows "(boneChildren h bone = [] \<longrightarrow>
            linesOf s = jointHead E h bone level
                        @ [repeat ''  '' level @ ''  End Site'',
                           repeat ''  '' level @ ''  {'',
                           repeat ''  '' level @ ''    OFFSET 0.0 0.0 0.0'',
                           repeat ''  '' level @ ''  }'',
                           repeat ''  '' level @ ''}'']
          \<and> count_list (linesOf s) (repeat ''  '' level @ ''  End Site'') = 1)
       \<and> (boneChildren h bone \<noteq> [] \<longrightarrow>
            (\<exists>blocks.
               map (\<lambda>child. buildBVHHierarchy E h fuel child (level + 1)) (boneChildren h bone)
                 = map Some blocks
             \<and> linesOf s = jointHead E h bone level @ concat (map linesOf blocks)
                            @ [repeat ''  '' level @ ''}''])
          \<and> count_list (linesOf s) (repeat ''  '' level @ ''  End Site'') = 0)"
proof -
  let ?X = "repeat ''  '' level @ ''  End Site''"
  from lines_block[OF assms] obtain bs where
    a2: "list_all2 (\<lambda>c y. buildBVHHierarchy E h fuel c (Suc level) = Some y)
           (boneChildren h bone) bs"
    and L: "linesOf s = jointHead E h bone level
                 @ (if boneChildren h bone = [] then endSite level else concat (map linesOf bs))
                 @ [repeat ''  '' level @ ''}'']"
    by blast
  have leaf: "linesOf s = jointHead E h bone level
                        @ [repeat ''  '' level @ ''  End Site'',
                           repeat ''  '' level @ ''  {'',
                           repeat ''  '' level @ ''    OFFSET 0.0 0.0 0.0'',
                           repeat ''  '' level @ ''  }'',
                           repeat ''  '' level @ ''}'']
          \<and> count_list (linesOf s) ?X = 1"
    if "boneChildren h bone = []"
    unfolding L using that head_no_EndSite[of E h bone level] by (simp add: endSite_def)
  have inner: "(\<exists>blocks.
               map (\<lambda>child. buildBVHHierarchy E h fuel child (level + 1)) (boneChildren h bone)
                 = map Some blocks
             \<and> linesOf s = jointHead E h bone level @ concat (map linesOf blocks)
                            @ [repeat ''  '' level @ ''}''])
          \<and> count_list (linesOf s) ?X = 0"
    if ne: "boneChildren h bone \<noteq> []"
  proof -
    have "?X \<notin> set (linesOf y)" if y: "y \<in> set bs" for y
    proof
      assume x: "?X \<in> set (linesOf y)"
      from all2_set[OF a2 y] obtain k where
        "buildBVHHierarchy E h fuel k (Suc level) = Some y" by blast
      from lines_form[OF assms(1) this] x obtain c r where
        "?X = repeat ''  '' (Suc level) @ c # r" and "c \<noteq> CHR ''E''" by blast
      then show False by (simp add: repeat_Suc_right)
    qed
    then have "?X \<notin> set (concat (map linesOf bs))" by auto
    then have "count_list (concat (map linesOf bs)) ?X = 0"
      by (simp add: count_list_0_iff)
    then have "count_list (linesOf s) ?X = 0"
      unfolding L using ne head_no_EndSite[of E h bone level] by simp
    moreover have "map (\<lambda>child. buildBVHHierarchy E h fuel child (level + 1))
                     (boneChildren h bone) = map Some bs"
      using all2_map[OF a2] by simp
    ultimately show ?thesis using L ne by auto
  qed
  from leaf inner show ?thesis by blast
qed

theorem joint_block_ends_in_End_Site_or_children_witness:
  "wellNamed skeleton3
   \<and> boneChildren skeleton3 12 = []
   \<and> count_list (linesOf (the (buildBVHHierarchy E1 skeleton3 (Suc 0) 12 2))) ''      End Site'' = 1
   \<and> boneChildren skeleton3 11 \<noteq> []
   \<and> count_list (linesOf (the (buildBVHHierarchy E1 skeleton3 (Suc (Suc 0)) 11 1))) ''    End Site'' = 0"
proof -
  have 1: "buildBVHHierarchy E1 skeleton3 (Suc 0) 12 2 \<noteq> None"
    by (simp add: build_Suc[OF wellNamed3] kids3)
  have 2: "buildBVHHierarchy E1 skeleton3 (Suc (Suc 0)) 11 1 \<noteq> None"
    by (simp add: build_Suc[OF wellNamed3] kids3)
  from 1 obtain s where s: "buildBVHHierarchy E1 skeleton3 (Suc 0) 12 2 = Some s" by blast
  from 2 obtain t where t: "buildBVHHierarchy E1 skeleton3 (Suc (Suc 0)) 11 1 = Some t" by blast
  have r: "repeat ''  '' 2 = ''    ''" "repeat ''  '' 1 = ''  ''"
    by (simp_all add: repeat_def numeral_2_eq_2)
  have ne: "boneChildren skeleton3 11 \<noteq> []" by (simp add: kids3)
  from joint_block_ends_in_End_Site_or_children[OF wellNamed3 s] kids3(3)
  have "count_list (linesOf s) (repeat ''  '' 2 @ ''  End Site'') = 1" by blast
  then have A: "count_list (linesOf s) ''      End Site'' = 1" unfolding r by simp
  from joint_block_ends_in_End_Site_or_children[OF wellNamed3 t] ne
  have "count_list (linesOf t) (repeat ''  '' 1 @ ''  End Site'') = 0" by blast
  then have B: "count_list (linesOf t) ''    End Site'' = 0" unfolding r by simp
  show ?thesis
    unfolding s t option.sel using wellNamed3 kids3(3) ne A B by blast
qed

subsection \<open>The lines of the document\<close>

lemma doc_lines:
  assumes "bvhString E h fuel bones = Some doc"
  obtains bone hierarchy where "rootBone h bones = Some bone"
    and "buildBVHHierarchy E h fuel bone 0 = Some hierarchy"
    and "linesOf doc = ''HIERARCHY'' # linesOf hierarchy
           @ [''MOTION'', ''Frames: 1'', ''Frame Time: 0.033333'',
              joinSp (concat (map (channelValues E h) bones))]"
proof -
  from assms obtain bone hierarchy where
    root: "rootBone h bones = Some bone" and
    hier: "buildBVHHierarchy E h fuel bone 0 = Some hierarchy" and
    doc: "doc = ''HIERARCHY\<newline>'' @ hierarchy @ ''MOTION\<newline>'' @ ''Frames: 1\<newline>''
               @ ''Frame Time: 0.033333\<newline>'' @ buildBVHMotion E h bones"
    by (rule bvhString_Some)
  let ?motion = "joinSp (concat (map (channelValues E h) bones))"
  have m: "buildBVHMotion E h bones = ?motion @ ''\<newline>''"
    by (rule motion_line[OF rootBone_ne[OF root]])
  have mnl: "CHR 0x0A \<notin> set ?motion"
    using channelValues_tokens token_no_nl by (intro joinSp_no_nl) fastforce
  have "linesOf (?motion @ ''\<newline>'') = [?motion]"
    using linesOf_line[OF mnl, of "[]"] by (simp add: linesOf_Nil)
  then have tail: "linesOf (''MOTION\<newline>'' @ ''Frames: 1\<newline>''
               @ ''Frame Time: 0.033333\<newline>'' @ ?motion @ ''\<newline>'')
        = [''MOTION'', ''Frames: 1'', ''Frame Time: 0.033333'', ?motion]"
    using linesOf_line[of "''MOTION''"] linesOf_line[of "''Frames: 1''"]
      linesOf_line[of "''Frame Time: 0.033333''"] by simp
  have "linesOf doc
        = ''HIERARCHY'' # linesOf (hierarchy @ ''MOTION\<newline>'' @ ''Frames: 1\<newline>''
               @ ''Frame Time: 0.033333\<newline>'' @ ?motion @ ''\<newline>'')"
    unfolding doc m using linesOf_line[of "''HIERARCHY''"] by simp
  also have "\<dots> = ''HIERARCHY'' # linesOf hierarchy
               @ [''MOTION'', ''Frames: 1'', ''Frame Time: 0.033333'', ?motion]"
    using build_last[OF hier] tail by (subst linesOf_append) simp_all
  finally show ?thesis using root hier that by blast
qed

lemma motionValues_doc:
  assumes "bvhString E h fuel bones = Some doc"
  shows "motionValues doc = concat (map (channelValues E h) bones)"
proof -
  from assms obtain bone hierarchy where root: "rootBone h bones = Some bone"
    and L: "linesOf doc = ''HIERARCHY'' # linesOf hierarchy
           @ [''MOTION'', ''Frames: 1'', ''Frame Time: 0.033333'',
              joinSp (concat (map (channelValues E h) bones))]"
    by (rule doc_lines)
  let ?ws = "concat (map (channelValues E h) bones)"
  have ne: "?ws \<noteq> []"
    using rootBone_ne[OF root] by (cases bones) (auto simp: channelValues_def)
  have sp: "\<forall>w \<in> set ?ws. CHR '' '' \<notin> set w"
    using channelValues_tokens token_no_sp by fastforce
  have "motionValues doc = splitOn (CHR '' '') (joinSp ?ws)"
    unfolding motionValues_def L by simp
  then show ?thesis using splitOn_joinSp[OF ne sp] by simp
qed

lemma length_channels: "length (concat (map (channelValues E h) bones)) = 6 * length bones"
  by (induction bones) (simp_all add: channelValues_def)

lemma hd_digits: "s \<noteq> [] \<Longrightarrow> \<forall>c \<in> set s. isDigit c \<Longrightarrow> hd s \<in> set ''NI-0123456789''"
  by (cases s) (auto simp: isDigit_def)

lemma hd_showNat: "hd (showNat n) \<in> set ''NI-0123456789''"
  by (rule hd_digits) (auto simp: showNat_ne showNat_digits)

lemma hd_numberToString: "hd (numberToString E x) \<in> set ''NI-0123456789''"
proof -
  obtain s n where sn: "shortestDigits E x = (s, n)" by (cases "shortestDigits E x")
  have "hd (take 1 (showNat s)) = hd (showNat s)"
    using showNat_ne[of s] by (cases "showNat s") auto
  moreover have "take 1 (showNat s) \<noteq> []" using showNat_ne[of s] by simp
  ultimately have "hd ((if length (showNat s) = 1 then showNat s
          else take 1 (showNat s) @ ''.'' @ drop 1 (showNat s)) @ r) = hd (showNat s)" for r
    using showNat_ne[of s] by (cases "length (showNat s) = 1") simp_all
  then show ?thesis
    using hd_showNat[of s] unfolding numberToString_def sn Let_def prod.case by simp
qed

lemma hd_fixed:
  "hd (take (length (fixedDigits x f) - f) (fixedDigits x f) @ r) \<in> set ''NI-0123456789''"
proof -
  let ?m = "fixedDigits x f"
  have ne: "take (length ?m - f) ?m \<noteq> []"
    using fixedDigits_length[of f x] by (auto simp: take_eq_Nil)
  then have "hd (take (length ?m - f) ?m @ r) = hd ?m"
    by (cases ?m) (auto simp: take_Cons' split: if_splits)
  moreover have "hd ?m \<in> set ''NI-0123456789''"
    using ne by (intro hd_digits) (auto simp: fixedDigits_digits)
  ultimately show ?thesis by simp
qed

lemma hd_toFixed: "hd (toFixed E v f) \<in> set ''NI-0123456789''"
proof (cases v)
  case (Finite q)
  show ?thesis
  proof (cases "q < 0")
    case True
    then show ?thesis unfolding Finite toFixed_Finite by simp
  next
    case False
    have "hd (if 10 ^ 21 \<le> \<bar>q\<bar> then numberToString E \<bar>q\<bar>
        else if f \<noteq> 0
             then take (length (fixedDigits \<bar>q\<bar> f) - f) (fixedDigits \<bar>q\<bar> f) @ ''.''
                  @ drop (length (fixedDigits \<bar>q\<bar> f) - f) (fixedDigits \<bar>q\<bar> f)
             else (let n = nat \<lfloor>\<bar>q\<bar> * 10 ^ f + 1 / 2\<rfloor> in if n = 0 then ''0'' else showNat n))
          \<in> set ''NI-0123456789''"
      using hd_numberToString[of E "\<bar>q\<bar>"] hd_fixed[of "\<bar>q\<bar>" f] hd_showNat
      by (simp add: Let_def)
    with False show ?thesis unfolding Finite toFixed_Finite by simp
  qed
qed (simp_all add: toFixed_def)

lemma stripIndent_indent: "stripIndent (repeat ''  '' l @ x) = stripIndent x"
  by (induction l) (simp_all add: repeat_0 repeat_Suc stripIndent_def)

lemma hd_joinSp: "ws \<noteq> [] \<Longrightarrow> hd ws \<noteq> [] \<Longrightarrow> hd (joinSp ws) = hd (hd ws)"
  by (induction ws rule: joinSp.induct) auto

lemma hd_motion:
  assumes "bones \<noteq> []"
  shows "joinSp (concat (map (channelValues E h) bones)) \<noteq> []
         \<and> hd (joinSp (concat (map (channelValues E h) bones))) \<in> set ''NI-0123456789''"
proof -
  obtain b bs where b: "bones = b # bs" using assms by (cases bones) auto
  let ?ws = "concat (map (channelValues E h) bones)"
  have h: "hd ?ws = toFixed E (vx (position (h b))) 6" and ne: "?ws \<noteq> []"
    unfolding b by (simp_all add: channelValues_def)
  have t: "hd ?ws \<noteq> []" unfolding h using token_toFixed[of E] by (simp add: token_def)
  have tk: "\<forall>w \<in> set ?ws. token w" using channelValues_tokens by auto
  show ?thesis
    using hd_joinSp[OF ne t] joinSp_ends[OF ne tk] hd_toFixed[of E "vx (position (h b))" 6]
    unfolding h by simp
qed

lemma order_Suc:
  "hierarchyOrder h (Suc n) b = Some order \<Longrightarrow>
   \<exists>os. list_all2 (\<lambda>c v. hierarchyOrder h n c = Some v) (boneChildren h b) os
        \<and> order = b # concat os"
  by (auto simp: those_map_all2)

lemma reach_unfold:
  "{x. (x, b) \<in> (boneLinks h)\<^sup>*}
   = insert b (\<Union>c \<in> set (boneChildren h b). {x. (x, c) \<in> (boneLinks h)\<^sup>*})"
proof -
  have "(x, b) \<in> (boneLinks h)\<^sup>*
        \<longleftrightarrow> x = b \<or> (\<exists>c. (x, c) \<in> (boneLinks h)\<^sup>* \<and> (c, b) \<in> boneLinks h)" for x
    by (metis rtrancl.cases rtrancl.rtrancl_into_rtrancl rtrancl.rtrancl_refl)
  then show ?thesis by (auto simp: boneLinks_def)
qed

lemma order_set:
  "hierarchyOrder h n b = Some order \<Longrightarrow> set order = {x. (x, b) \<in> (boneLinks h)\<^sup>*}"
proof (induction n arbitrary: b order)
  case 0
  then show ?case by simp
next
  case (Suc n)
  from order_Suc[OF Suc.prems] obtain os where
    a2: "list_all2 (\<lambda>c v. hierarchyOrder h n c = Some v) (boneChildren h b) os"
    and ord: "order = b # concat os" by blast
  from a2 have "list_all2 (\<lambda>c v. set v = {x. (x, c) \<in> (boneLinks h)\<^sup>*}) (boneChildren h b) os"
    using Suc.IH by (auto elim!: list_all2_mono)
  then have "(\<Union>v \<in> set os. set v)
             = (\<Union>c \<in> set (boneChildren h b). {x. (x, c) \<in> (boneLinks h)\<^sup>*})"
    by (induction rule: list_all2_induct) auto
  then show ?case unfolding ord reach_unfold[of b] by simp
qed

lemma jointNames_head:
  "map (\<lambda>x. drop 6 (stripIndent x)) (filter isJointLine (jointHead E h b l)) = [jointLabel h b]"
  by (simp add: jointHead_def isJointLine_def stripIndent_indent) (simp add: stripIndent_def)

lemma jointNames_endSite: "filter isJointLine (endSite l) = []"
  by (simp add: endSite_def isJointLine_def stripIndent_indent) (simp add: stripIndent_def)

lemma jointNames_close: "\<not> isJointLine (repeat ''  '' l @ ''}'')"
  by (simp add: isJointLine_def stripIndent_indent) (simp add: stripIndent_def)

lemma jointNames_block:
  "wellNamed h \<Longrightarrow> buildBVHHierarchy E h n b l = Some s \<Longrightarrow> hierarchyOrder h n b = Some order \<Longrightarrow>
   map (\<lambda>x. drop 6 (stripIndent x)) (filter isJointLine (linesOf s)) = map (jointLabel h) order"
proof (induction n arbitrary: b l s order)
  case 0
  then show ?case by simp
next
  case (Suc n)
  let ?names = "\<lambda>t. map (\<lambda>x. drop 6 (stripIndent x)) (filter isJointLine (linesOf t))"
  from lines_block[OF Suc.prems(1,2)] obtain bs where
    a2: "list_all2 (\<lambda>c y. buildBVHHierarchy E h n c (Suc l) = Some y) (boneChildren h b) bs"
    and L: "linesOf s = jointHead E h b l
                 @ (if boneChildren h b = [] then endSite l else concat (map linesOf bs))
                 @ [repeat ''  '' l @ ''}'']"
    by blast
  from order_Suc[OF Suc.prems(3)] obtain os where
    o2: "list_all2 (\<lambda>c v. hierarchyOrder h n c = Some v) (boneChildren h b) os"
    and ord: "order = b # concat os" by blast
  have len: "length bs = length os"
    using a2 o2 by (simp add: list_all2_lengthD[symmetric])
  have kid: "?names (bs ! i) = map (jointLabel h) (os ! i)" if "i < length bs" for i
  proof -
    from a2 that have "buildBVHHierarchy E h n (boneChildren h b ! i) (Suc l) = Some (bs ! i)"
      by (simp add: list_all2_conv_all_nth)
    moreover from o2 that len have "hierarchyOrder h n (boneChildren h b ! i) = Some (os ! i)"
      by (simp add: list_all2_conv_all_nth)
    ultimately show ?thesis by (rule Suc.IH[OF Suc.prems(1)])
  qed
  have "map ?names bs = map (map (jointLabel h)) os"
  proof (rule nth_equalityI)
    show "length (map ?names bs) = length (map (map (jointLabel h)) os)"
      using len by simp
  next
    fix i
    assume "i < length (map ?names bs)"
    then have i: "i < length bs" by simp
    from kid[OF i] i len show "map ?names bs ! i = map (map (jointLabel h)) os ! i"
      by (simp only: nth_map)
  qed
  then have kids: "map (\<lambda>x. drop 6 (stripIndent x)) (filter isJointLine (concat (map linesOf bs)))
                   = map (jointLabel h) (concat os)"
    by (simp add: filter_concat map_concat comp_def)
  have "os = []" if "boneChildren h b = []"
    using o2 that by simp
  then show ?case
    unfolding L ord using kids jointNames_head[of E h b l] jointNames_endSite[of l]
      jointNames_close[of l]
    by (cases "boneChildren h b = []") simp_all
qed

lemma jointNames_doc:
  assumes "bvhString E h fuel bones = Some doc" and "wellNamed h"
    and "rootBone h bones = Some bone" and "hierarchyOrder h fuel bone = Some order"
  shows "jointNames doc = map (jointLabel h) order"
proof -
  from assms(1) obtain bone' hierarchy where root: "rootBone h bones = Some bone'"
    and hier: "buildBVHHierarchy E h fuel bone' 0 = Some hierarchy"
    and L: "linesOf doc = ''HIERARCHY'' # linesOf hierarchy
           @ [''MOTION'', ''Frames: 1'', ''Frame Time: 0.033333'',
              joinSp (concat (map (channelValues E h) bones))]"
    by (rule doc_lines)
  from root assms(3) have b: "bone' = bone" by simp
  let ?motion = "joinSp (concat (map (channelValues E h) bones))"
  have lit: "\<not> isJointLine ''HIERARCHY''" "\<not> isJointLine ''MOTION''"
    "\<not> isJointLine ''Frames: 1''" "\<not> isJointLine ''Frame Time: 0.033333''"
    by (simp_all add: isJointLine_def stripIndent_def)
  from hd_motion[OF rootBone_ne[OF root], of E h]
  have "stripIndent ?motion = ?motion" and "hd ?motion \<noteq> CHR ''J''" and "?motion \<noteq> []"
    by (cases ?motion; auto simp: stripIndent_def)+
  then have m: "\<not> isJointLine ?motion"
    unfolding isJointLine_def by (cases ?motion) auto
  show ?thesis
    unfolding jointNames_def L
    using lit m jointNames_block[OF assms(2) hier[unfolded b] assms(4)] by simp
qed

subsection \<open>The order of the motion values\<close>

lemma order3: "hierarchyOrder skeleton3 3 10 = Some [10, 11, 12]"
  unfolding numeral_3_eq_3 by (simp add: kids3)

lemma root3_shuffled: "rootBone skeleton3 [11, 10, 12] = Some 10"
  by (simp add: rootBone_def obj3 node_def)

lemma document3_shuffled: "bvhString E1 skeleton3 3 [11, 10, 12] \<noteq> None"
  by (simp add: bvhString_def root3_shuffled block3)

text \<open>
  C2. The claim: the Nth group of six motion values belongs to the Nth joint of the
  hierarchy. It fails when the bone set lists the bones in another order than the
  traversal visits them: with the bone set \<open>[A, R, B]\<close> of the sample skeleton the
  hierarchy runs \<open>R, A, B\<close>, and the motion line starts with the values of \<open>A\<close>.
\<close>

theorem motion_order_counterexample:
  "rootBone skeleton3 [11, 10, 12] = Some 10
   \<and> hierarchyOrder skeleton3 3 10 = Some [10, 11, 12]
   \<and> jointNames (the (bvhString E1 skeleton3 3 [11, 10, 12])) = [''R'', ''A'', ''B'']
   \<and> motionValues (the (bvhString E1 skeleton3 3 [11, 10, 12]))
       \<noteq> concat (map (channelValues E1 skeleton3) [10, 11, 12])"
proof -
  obtain doc where d: "bvhString E1 skeleton3 3 [11, 10, 12] = Some doc"
    using document3_shuffled by blast
  have "motionValues doc \<noteq> concat (map (channelValues E1 skeleton3) [10, 11, 12])"
    unfolding motionValues_doc[OF d] by (simp add: values3)
  moreover have "jointNames doc = [''R'', ''A'', ''B'']"
  proof -
    from d obtain bone hierarchy where root: "rootBone skeleton3 [11, 10, 12] = Some bone"
      and hier: "buildBVHHierarchy E1 skeleton3 3 bone 0 = Some hierarchy"
      and L: "linesOf doc = ''HIERARCHY'' # linesOf hierarchy
           @ [''MOTION'', ''Frames: 1'', ''Frame Time: 0.033333'',
              joinSp (concat (map (channelValues E1 skeleton3) [11, 10, 12]))]"
      by (rule doc_lines)
    from root hier have "hierarchy = block3" by (simp add: root3_shuffled block3)
    then show ?thesis
      unfolding jointNames_def L
      by (simp add: block3_def linesOf_def isJointLine_def stripIndent_def values3)
  qed
  ultimately show ?thesis using root3_shuffled order3 d by simp
qed

lemma group_nth:
  "N < length bones \<Longrightarrow>
   take 6 (drop (6 * N) (concat (map (channelValues E h) bones))) = channelValues E h (bones ! N)"
proof (induction bones arbitrary: N)
  case Nil
  then show ?case by simp
next
  case (Cons b bones)
  have l: "length (channelValues E h b) = 6" by (simp add: channelValues_def)
  show ?case
  proof (cases N)
    case 0
    with l show ?thesis by simp
  next
    case (Suc M)
    with Cons.prems have "M < length bones" by simp
    from Cons.IH[OF this] show ?thesis unfolding Suc using l by simp
  qed
qed

text \<open>
  C2, as the code has it. For a non-empty bone set the motion line holds exactly six
  values for each bone of the set, separated by single spaces, and the Nth group of six
  holds the position \<open>x, y, z\<close> and the rotation \<open>x, y, z\<close> of the Nth bone in bone-set
  order. When the bone set lists the bones in the order in which the traversal from the
  selected root visits them (names holding no line break), the joints of the hierarchy
  block are those of the bones of the set in that order, so that the Nth group belongs
  to the Nth joint.
\<close>

theorem motion_groups_follow_bone_set_order:
  assumes "bvhString E h fuel bones = Some doc"
  shows "length (motionValues doc) = 6 * length bones
         \<and> (\<forall>N < length bones. motionGroup doc N = channelValues E h (bones ! N))
         \<and> (wellNamed h
              \<and> (\<exists>bone. rootBone h bones = Some bone \<and> hierarchyOrder h fuel bone = Some bones)
              \<longrightarrow> length (jointNames doc) = length bones
                  \<and> (\<forall>N < length bones. jointNames doc ! N = jointLabel h (bones ! N)))"
proof -
  note m = motionValues_doc[OF assms]
  have 1: "length (motionValues doc) = 6 * length bones"
    unfolding m by (rule length_channels)
  have 2: "\<forall>N < length bones. motionGroup doc N = channelValues E h (bones ! N)"
    unfolding motionGroup_def m using group_nth by blast
  have 3: "length (jointNames doc) = length bones
           \<and> (\<forall>N < length bones. jointNames doc ! N = jointLabel h (bones ! N))"
    if "wellNamed h" "rootBone h bones = Some bone" "hierarchyOrder h fuel bone = Some bones"
    for bone
    unfolding jointNames_doc[OF assms that] by simp
  from 1 2 3 show ?thesis by blast
qed

theorem motion_groups_follow_bone_set_order_witness:
  "bvhString E1 skeleton3 3 [10, 11, 12] \<noteq> None \<and> wellNamed skeleton3
   \<and> rootBone skeleton3 [10, 11, 12] = Some 10
   \<and> hierarchyOrder skeleton3 3 10 = Some [10, 11, 12]
   \<and> length (motionValues (the (bvhString E1 skeleton3 3 [10, 11, 12]))) = 18
   \<and> jointNames (the (bvhString E1 skeleton3 3 [10, 11, 12])) ! 1 = ''A''
   \<and> motionGroup (the (bvhString E1 skeleton3 3 [10, 11, 12])) 1
       = [''1.000000'', ''0.000000'', ''0.000000'', ''0.000000'', ''0.000000'', ''0.000000'']
   \<and> jointNames (the (bvhString E1 skeleton3 3 [10, 11, 12])) ! 2 = ''B''
   \<and> motionGroup (the (bvhString E1 skeleton3 3 [10, 11, 12])) 2
       = [''0.000000'', ''1.000000'', ''0.000000'', ''0.000000'', ''0.000000'', ''0.000000'']"
proof -
  obtain doc where d: "bvhString E1 skeleton3 3 [10, 11, 12] = Some doc"
    using document3 by blast
  note t = motion_groups_follow_bone_set_order[OF d]
  from t have 1: "length (motionValues doc) = 18" by simp
  from t have g: "motionGroup doc N = channelValues E1 skeleton3 ([10, 11, 12] ! N)"
    if "N < 3" for N using that by simp
  from t wellNamed3 root3 order3
  have j: "jointNames doc ! N = jointLabel skeleton3 ([10, 11, 12] ! N)" if "N < 3" for N
    using that by simp
  have v: "channelValues E1 skeleton3 11
             = [''1.000000'', ''0.000000'', ''0.000000'', ''0.000000'', ''0.000000'', ''0.000000'']"
    "channelValues E1 skeleton3 12
             = [''0.000000'', ''1.000000'', ''0.000000'', ''0.000000'', ''0.000000'', ''0.000000'']"
    by (simp_all add: values3)
  have n: "jointLabel skeleton3 11 = ''A''" "jointLabel skeleton3 12 = ''B''"
    by (simp_all add: jointLabel_def obj3 node_def)
  from g[of 1] v(1) have g1: "motionGroup doc 1 = [''1.000000'', ''0.000000'', ''0.000000'', ''0.000000'', ''0.000000'', ''0.000000'']"
    by simp
  from g[of 2] v(2) have g2: "motionGroup doc 2 = [''0.000000'', ''1.000000'', ''0.000000'', ''0.000000'', ''0.000000'', ''0.000000'']"
    by simp
  from j[of 1] n(1) have j1: "jointNames doc ! 1 = ''A''" by simp
  from j[of 2] n(2) have j2: "jointNames doc ! 2 = ''B''" by simp
  show ?thesis
    unfolding d option.sel using wellNamed3 root3 order3 1 g1 g2 j1 j2 by simp
qed

subsection \<open>Number formats in the document\<close>






















lemma order4: "hierarchyOrder skeleton4 3 10 = Some [10, 11, 12]"
  unfolding numeral_3_eq_3 by (simp add: kids4)














subsection \<open>Joints of the hierarchy and bones of the set\<close>

lemma links_single_valued: "sceneGraph h \<Longrightarrow> single_valued (boneLinks h)"
  unfolding single_valued_def sceneGraph_def boneLinks_def boneChildren_def
  by (metis (mono_tags, lifting) case_prodD filter_is_subset mem_Collect_eq option.inject subsetD)

lemma no_way_down: "acyclic r \<Longrightarrow> (c, b) \<in> r \<Longrightarrow> (b, c) \<notin> r\<^sup>*"
  unfolding acyclic_def by (meson rtrancl_into_trancl1)

lemma below_sibling:
  assumes "single_valued r" and "acyclic r" and "(c, b) \<in> r" and "(d, b) \<in> r" and "c \<noteq> d"
  shows "(c, d) \<notin> r\<^sup>*"
proof
  assume "(c, d) \<in> r\<^sup>*"
  with assms(5) obtain y where y: "(c, y) \<in> r" "(y, d) \<in> r\<^sup>*"
    by (auto elim: converse_rtranclE)
  from assms(1) y(1) assms(3) have "y = b" by (auto dest: single_valuedD)
  with y(2) no_way_down[OF assms(2,4)] show False by simp
qed

lemma siblings_disjoint:
  assumes "single_valued r" and "acyclic r" and "(c, b) \<in> r" and "(d, b) \<in> r" and "c \<noteq> d"
  shows "{x. (x, c) \<in> r\<^sup>*} \<inter> {x. (x, d) \<in> r\<^sup>*} = {}"
proof -
  have False if "(x, c) \<in> r\<^sup>*" "(x, d) \<in> r\<^sup>*" for x
  proof -
    from single_valued_confluent[OF assms(1) that] consider "(c, d) \<in> r\<^sup>*" | "(d, c) \<in> r\<^sup>*"
      by blast
    then show False
    proof cases
      case 1
      with below_sibling[OF assms] show False by simp
    next
      case 2
      with below_sibling[OF assms(1,2,4,3)] assms(5) show False by simp
    qed
  qed
  then show ?thesis by blast
qed

lemma distinct_concat_orders:
  assumes "list_all2 (\<lambda>c v. distinct v \<and> set v = S c) cs os" and "distinct cs"
    and "\<forall>c \<in> set cs. \<forall>d \<in> set cs. c \<noteq> d \<longrightarrow> S c \<inter> S d = {}"
  shows "distinct (concat os) \<and> set (concat os) = (\<Union>c \<in> set cs. S c)"
  using assms
proof (induction rule: list_all2_induct)
  case Nil
  show ?case by simp
next
  case (Cons c cs v os)
  from Cons.prems have d: "distinct cs" and c: "c \<notin> set cs"
    and s: "\<forall>c \<in> set cs. \<forall>d \<in> set cs. c \<noteq> d \<longrightarrow> S c \<inter> S d = {}"
    and t: "\<forall>d \<in> set cs. S c \<inter> S d = {}"
    by auto
  from Cons.IH[OF d s] have ih: "distinct (concat os)" "set (concat os) = (\<Union>c \<in> set cs. S c)"
    by simp_all
  from Cons.hyps(1) have v: "distinct v" "set v = S c" by simp_all
  from t have "S c \<inter> (\<Union>c \<in> set cs. S c) = {}" by blast
  with v ih show ?case by simp
qed

lemma order_distinct:
  assumes "sceneGraph h"
  shows "hierarchyOrder h n b = Some order \<Longrightarrow> distinct order"
proof (induction n arbitrary: b order)
  case 0
  then show ?case by simp
next
  case (Suc n)
  let ?r = "boneLinks h"
  let ?S = "\<lambda>c. {x. (x, c) \<in> ?r\<^sup>*}"
  from assms have sv: "single_valued ?r" by (rule links_single_valued)
  from assms have ac: "acyclic ?r" by (simp add: sceneGraph_def)
  from assms have dc: "distinct (boneChildren h b)"
    by (simp add: sceneGraph_def boneChildren_def)
  from order_Suc[OF Suc.prems] obtain os where
    a2: "list_all2 (\<lambda>c v. hierarchyOrder h n c = Some v) (boneChildren h b) os"
    and ord: "order = b # concat os" by blast
  have "distinct v \<and> set v = ?S c" if "hierarchyOrder h n c = Some v" for c v
    using Suc.IH[OF that] order_set[OF that] by simp
  with a2 have 1: "list_all2 (\<lambda>c v. distinct v \<and> set v = ?S c) (boneChildren h b) os"
    by (rule list_all2_mono)
  have l: "(c, b) \<in> ?r" if "c \<in> set (boneChildren h b)" for c
    using that by (simp add: boneLinks_def)
  have 2: "\<forall>c \<in> set (boneChildren h b). \<forall>d \<in> set (boneChildren h b).
             c \<noteq> d \<longrightarrow> ?S c \<inter> ?S d = {}"
  proof (intro ballI impI)
    fix c d assume "c \<in> set (boneChildren h b)" "d \<in> set (boneChildren h b)" "c \<noteq> d"
    then show "?S c \<inter> ?S d = {}"
      using siblings_disjoint[OF sv ac l l] by blast
  qed
  from distinct_concat_orders[OF 1 dc 2]
  have dist: "distinct (concat os)"
    and set: "set (concat os) = (\<Union>c \<in> set (boneChildren h b). ?S c)"
    by simp_all
  have "b \<notin> set (concat os)"
  proof
    assume "b \<in> set (concat os)"
    then obtain c where "c \<in> set (boneChildren h b)" "(b, c) \<in> ?r\<^sup>*"
      unfolding set by blast
    with no_way_down[OF ac l] show False by blast
  qed
  with dist show ?case unfolding ord by simp
qed

lemma reach_in_set:
  assumes "holdsBoneChildren h bones" and "bone \<in> set bones"
  shows "(x, bone) \<in> (boneLinks h)\<^sup>* \<Longrightarrow> x \<in> set bones"
proof (induction rule: converse_rtrancl_induct)
  case base
  from assms(2) show ?case .
next
  case (step y z)
  then show ?case using assms(1) by (auto simp: holdsBoneChildren_def boneLinks_def)
qed

lemma rootBone_in: "rootBone h bones = Some bone \<Longrightarrow> bone \<in> set bones"
  unfolding rootBone_def
  by (cases bones) (auto split: option.splits if_splits dest: find_Some_iff[THEN iffD1] simp: in_set_conv_nth)

lemma root4: "rootBone skeleton4 [10, 11, 12, 13] = Some 10"
  by (simp add: rootBone_def obj4 obj3 node_def)

lemma document4: "bvhString E1 skeleton4 3 [10, 11, 12, 13] \<noteq> None"
  by (simp add: bvhString_def root4 block4)

lemma links4: "boneLinks skeleton4 = {(11, 10), (12, 11)}"
proof -
  have "boneChildren skeleton4 b = (if b = 10 then [11] else if b = 11 then [12] else [])" for b
    by (simp add: boneChildren_def skeleton4_def skeleton3_def node_def)
  then show ?thesis
    unfolding boneLinks_def by (auto split: if_splits)
qed

lemma sceneGraph4: "sceneGraph skeleton4"
proof -
  have c: "children (skeleton4 p) = (if p = 10 then [11] else if p = 11 then [12] else [])" for p
    by (simp add: skeleton4_def skeleton3_def node_def)
  have p: "parent (skeleton4 11) = Some 10" "parent (skeleton4 12) = Some 11"
    by (simp_all add: obj4 obj3 node_def)
  have "acyclic (boneLinks skeleton4)"
    unfolding links4
    by (rule acyclic_subset[OF wf_acyclic[OF wf_measure[of "\<lambda>r. 100 - r"]]]) auto
  then show ?thesis
    unfolding sceneGraph_def using c p by simp
qed

lemma holds4: "holdsBoneChildren skeleton4 [10, 11, 12, 13]"
  by (simp add: holdsBoneChildren_def kids4)

text \<open>
  C10. For a non-empty bone set (names hold no line break) the hierarchy section has a
  joint block exactly for the bones reachable from the selected root through bone-typed
  child links, and the motion line has one group of six values for every bone of the
  set. In a scene graph, whose bones form a forest, every reachable bone has one joint
  block; the bone set of a model holds the bone children of its bones, hence the
  reachable bones; so, if some bone of the set is not reachable from the root, the
  hierarchy has fewer joints than the motion line has groups.
\<close>

theorem joints_are_the_reachable_bones:
  assumes "bvhString E h fuel bones = Some doc" and "wellNamed h"
  shows "\<exists>bone order.
           rootBone h bones = Some bone
         \<and> hierarchyOrder h fuel bone = Some order
         \<and> set order = {b. (b, bone) \<in> (boneLinks h)\<^sup>*}
         \<and> jointNames doc = map (jointLabel h) order
         \<and> length (motionValues doc) = 6 * length bones
         \<and> (sceneGraph h \<and> holdsBoneChildren h bones \<longrightarrow>
              distinct order \<and> set order \<subseteq> set bones
              \<and> ((\<exists>b \<in> set bones. (b, bone) \<notin> (boneLinks h)\<^sup>*)
                   \<longrightarrow> length (jointNames doc) < length (motionValues doc) div 6))"
proof -
  from assms(1) obtain bone hierarchy where root: "rootBone h bones = Some bone"
    and hier: "buildBVHHierarchy E h fuel bone 0 = Some hierarchy"
    by (rule doc_lines)
  from hier have "hierarchyOrder h fuel bone \<noteq> None"
    using order_None[of h fuel bone E 0] by simp
  then obtain order where order: "hierarchyOrder h fuel bone = Some order" by blast
  note reach = order_set[OF order]
  note names = jointNames_doc[OF assms root order]
  have groups: "length (motionValues doc) = 6 * length bones"
    unfolding motionValues_doc[OF assms(1)] by (rule length_channels)
  have forest: "distinct order \<and> set order \<subseteq> set bones
         \<and> ((\<exists>b \<in> set bones. (b, bone) \<notin> (boneLinks h)\<^sup>*)
              \<longrightarrow> length (jointNames doc) < length (motionValues doc) div 6)"
    if "sceneGraph h" "holdsBoneChildren h bones"
  proof -
    from order_distinct[OF that(1) order] have d: "distinct order" .
    have s: "set order \<subseteq> set bones"
      unfolding reach using reach_in_set[OF that(2) rootBone_in[OF root]] by blast
    have "length (jointNames doc) < length (motionValues doc) div 6"
      if "\<exists>b \<in> set bones. (b, bone) \<notin> (boneLinks h)\<^sup>*"
    proof -
      from that s have "set order \<subset> set bones" unfolding reach by blast
      then have "card (set order) < card (set bones)"
        by (simp add: psubset_card_mono)
      also have "\<dots> \<le> length bones" by (rule card_length)
      finally have "length order < length bones"
        using d by (simp add: distinct_card)
      then show ?thesis unfolding names groups by simp
    qed
    with d s show ?thesis by blast
  qed
  with root order reach names groups show ?thesis by blast
qed

theorem joints_are_the_reachable_bones_witness:
  "bvhString E1 skeleton4 3 [10, 11, 12, 13] \<noteq> None \<and> wellNamed skeleton4
   \<and> sceneGraph skeleton4 \<and> holdsBoneChildren skeleton4 [10, 11, 12, 13]
   \<and> rootBone skeleton4 [10, 11, 12, 13] = Some 10
   \<and> 13 \<in> set [10, 11, 12, 13 :: ref] \<and> (13, 10) \<notin> (boneLinks skeleton4)\<^sup>*
   \<and> jointNames (the (bvhString E1 skeleton4 3 [10, 11, 12, 13])) = [''R'', ''A'', ''B'']
   \<and> length (motionValues (the (bvhString E1 skeleton4 3 [10, 11, 12, 13]))) = 24
   \<and> length (jointNames (the (bvhString E1 skeleton4 3 [10, 11, 12, 13])))
       < length (motionValues (the (bvhString E1 skeleton4 3 [10, 11, 12, 13]))) div 6"
proof -
  obtain doc where d: "bvhString E1 skeleton4 3 [10, 11, 12, 13] = Some doc"
    using document4 by blast
  from joints_are_the_reachable_bones[OF d wellNamed4] obtain bone order where
    1: "rootBone skeleton4 [10, 11, 12, 13] = Some bone"
    and 2: "hierarchyOrder skeleton4 3 bone = Some order"
    and 3: "jointNames doc = map (jointLabel skeleton4) order"
    and 4: "length (motionValues doc) = 6 * length [10, 11, 12, 13 :: ref]"
    and 5: "sceneGraph skeleton4 \<and> holdsBoneChildren skeleton4 [10, 11, 12, 13] \<longrightarrow>
              distinct order \<and> set order \<subseteq> set [10, 11, 12, 13]
              \<and> ((\<exists>b \<in> set [10, 11, 12, 13]. (b, bone) \<notin> (boneLinks skeleton4)\<^sup>*)
                   \<longrightarrow> length (jointNames doc) < length (motionValues doc) div 6)"
    by blast
  from 1 have b: "bone = 10" unfolding root4 by simp
  from 2 have o: "order = [10, 11, 12]" unfolding b order4 by simp
  have e: "{x. (x, 10) \<in> (boneLinks skeleton4)\<^sup>*} = set [10, 11, 12]"
    using order_set[OF order4] by simp
  have "(13, 10) \<in> (boneLinks skeleton4)\<^sup>*
        \<longleftrightarrow> 13 \<in> {x. (x, 10) \<in> (boneLinks skeleton4)\<^sup>*}" by simp
  then have n: "(13, 10) \<notin> (boneLinks skeleton4)\<^sup>*" unfolding e by simp
  from 3 have j: "jointNames doc = [''R'', ''A'', ''B'']"
    unfolding o by (simp add: jointLabel_def obj4 obj3 node_def)
  from 4 have m: "length (motionValues doc) = 24" by simp
  from 5 sceneGraph4 holds4 n
  have "length (jointNames doc) < length (motionValues doc) div 6"
    unfolding b by simp
  then show ?thesis
    unfolding d option.sel using wellNamed4 sceneGraph4 holds4 root4 n j m by simp
qed

end
